theory Spec2Isabelle
  imports Complex_Main "HOL-Library.Word" "HOL-Library.Code_Target_Numeral"
begin

unbundle bit_operations_syntax

section \<open>Data model\<close>

text \<open>
  The Go struct \<^verbatim>\<open>HyperLogLog { reg []uint8; m uint32; p uint8 }\<close> of
  \<^verbatim>\<open>hyperloglog.go\<close>. The register slice is a list of bytes; a \<^verbatim>\<open>nil\<close> slice and
  an empty slice are both \<open>[]\<close>. In this record a sketch owns its registers; where sketches
  can share an array (\<^verbatim>\<open>Merge\<close>), the section on register buffers in memory models the
  slice with its address.
\<close>

type_synonym uint8 = "8 word"
type_synonym uint32 = "32 word"
type_synonym uint64 = "64 word"

record HyperLogLog =
  reg :: "uint8 list"
  m :: uint32
  p :: uint8

text \<open>
  Go reports failures as \<^verbatim>\<open>error\<close> values told apart by their message, and an
  out-of-range slice index panics. Each message of the source is one constructor.
\<close>

datatype error =
    ErrPrecisionRange       \<comment> \<open>"precision must be between 4 and 16"\<close>
  | ErrRegistersRange       \<comment> \<open>"number of registers out of range"\<close>
  | ErrNotPowerOfTwo        \<comment> \<open>"invalid number of registers (must be power of 2)"\<close>
  | ErrPrecisionMismatch    \<comment> \<open>"precisions must be equal"\<close>
  | PanicIndexOutOfRange    \<comment> \<open>runtime panic: index out of range\<close>
  | CorruptInputError       \<comment> \<open>encoding/base64: illegal base64 data\<close>
  | GobDecodeError          \<comment> \<open>encoding/gob: end of stream, or a value of the wrong type\<close>

text \<open>The zero value \<^verbatim>\<open>HyperLogLog{}\<close>.\<close>

definition zero_value :: HyperLogLog where
  "zero_value = \<lparr>reg = [], m = 0, p = 0\<rparr>"

section \<open>Bit helpers of common.go\<close>

text \<open>
  \<^verbatim>\<open>math/bits\<close>: \<^verbatim>\<open>Len32(x)\<close> is the minimum number of bits needed to represent
  \<open>x\<close> (0 for 0), and \<^verbatim>\<open>LeadingZeros32(x) = 32 - Len32(x)\<close>.
\<close>

fun Len :: "nat \<Rightarrow> nat" where
  "Len n = (if n = 0 then 0 else Suc (Len (n div 2)))"

declare Len.simps [simp del]

definition LeadingZeros32 :: "uint32 \<Rightarrow> nat" where
  "LeadingZeros32 x = 32 - Len (unat x)"

definition clz32 :: "uint32 \<Rightarrow> uint8" where
  "clz32 x = of_nat (LeadingZeros32 x)"

text \<open>
  \<^verbatim>\<open>eb32(bits, hi, lo)\<close>: the mask is built in \<^verbatim>\<open>uint32\<close>, the shift counts are
  \<^verbatim>\<open>uint8\<close> (so \<open>hi - lo\<close> wraps), and a Go shift by 32 or more gives 0, as
  \<open>push_bit\<close> and \<open>drop_bit\<close> do on a 32-bit word.
\<close>

definition eb32 :: "uint32 \<Rightarrow> uint8 \<Rightarrow> uint8 \<Rightarrow> uint32" where
  "eb32 bits hi lo =
     (let msk = push_bit (unat lo) (push_bit (unat (hi - lo)) (1 :: uint32) - 1)
      in drop_bit (unat lo) (bits AND msk))"

section \<open>Construction\<close>

definition New :: "uint8 \<Rightarrow> error + HyperLogLog" where
  "New precision =
     (if precision > 16 \<or> precision < 4 then Inl ErrPrecisionRange
      else let m' = push_bit (unat precision) (1 :: uint32)
           in Inr \<lparr>reg = replicate (unat m') 0, m = m', p = precision\<rparr>)"

text \<open>
  \<^verbatim>\<open>NewReg\<close>: \<^verbatim>\<open>len(reg)\<close> and the local \<^verbatim>\<open>m := 1 << uint32(p)\<close> are Go
  \<^verbatim>\<open>int\<close>s; after the range check \<open>p\<close> is at most 31, so the shift cannot overflow
  and \<open>int\<close> models it. The conversion \<^verbatim>\<open>uint32(len(reg))\<close> truncates.
\<close>

definition NewReg :: "uint8 list \<Rightarrow> error + HyperLogLog" where
  "NewReg r =
     (if length r > 2 ^ 16 \<or> length r < 2 ^ 4 then Inl ErrRegistersRange
      else let p' = 31 - clz32 (of_nat (length r));
               m' = push_bit (unat p') (1 :: int)
           in if m' \<noteq> int (length r) then Inl ErrNotPowerOfTwo
              else Inr \<lparr>reg = r, m = of_int m', p = p'\<rparr>)"

definition Registers :: "HyperLogLog \<Rightarrow> uint8 list" where
  "Registers h = reg h"

definition Clear :: "HyperLogLog \<Rightarrow> HyperLogLog" where
  "Clear h = h\<lparr>reg := replicate (unat (m h)) 0\<rparr>"

section \<open>Add and Merge\<close>

text \<open>
  \<^verbatim>\<open>Add\<close> takes the item's \<^verbatim>\<open>Sum32()\<close>. The sentinel \<^verbatim>\<open>1<<(h.p-1)\<close> is a
  \<^verbatim>\<open>uint32\<close> shifted by a \<^verbatim>\<open>uint8\<close> count; \<^verbatim>\<open>clz32(w) + 1\<close> is \<^verbatim>\<open>uint8\<close>
  arithmetic. Indexing \<^verbatim>\<open>h.reg[i]\<close> outside the slice panics.
\<close>

definition Add :: "HyperLogLog \<Rightarrow> uint32 \<Rightarrow> error + HyperLogLog" where
  "Add h x =
     (let i = unat (eb32 x 32 (32 - p h));
          w = push_bit (unat (p h)) x OR push_bit (unat (p h - 1)) (1 :: uint32);
          zeroBits = clz32 w + 1
      in if i \<ge> length (reg h) then Inl PanicIndexOutOfRange
         else if zeroBits > reg h ! i then Inr (h\<lparr>reg := (reg h)[i := zeroBits]\<rparr>)
         else Inr h)"

text \<open>
  The loop of \<^verbatim>\<open>Merge\<close>, \<^verbatim>\<open>for i, v := range other.reg\<close>: \<open>merge_loop hr i vs\<close> runs
  it from index \<open>i\<close> over the remaining values \<open>vs\<close> of the other sketch. Here the two
  sketches are values, each with a register vector of its own, as \<^verbatim>\<open>New\<close> makes them.
  \<^verbatim>\<open>Merge\<close> writes its receiver in place, so for sketches that \<^verbatim>\<open>NewReg\<close> built on
  windows of one array it is modelled on the memory (\<open>Merge_mem\<close> below); the two agree
  when the windows are the same or do not overlap.
\<close>

fun merge_loop :: "uint8 list \<Rightarrow> nat \<Rightarrow> uint8 list \<Rightarrow> error + uint8 list" where
  "merge_loop hr i [] = Inr hr"
| "merge_loop hr i (v # vs) =
     (if i \<ge> length hr then Inl PanicIndexOutOfRange
      else merge_loop (if v > hr ! i then hr[i := v] else hr) (Suc i) vs)"

definition Merge :: "HyperLogLog \<Rightarrow> HyperLogLog \<Rightarrow> error + HyperLogLog" where
  "Merge h other =
     (if p h \<noteq> p other then Inl ErrPrecisionMismatch
      else case merge_loop (reg h) 0 (reg other) of
             Inl e \<Rightarrow> Inl e
           | Inr r \<Rightarrow> Inr (h\<lparr>reg := r\<rparr>))"

text \<open>
  A sketch as \<^verbatim>\<open>New\<close> and \<^verbatim>\<open>NewReg\<close> build it and \<^verbatim>\<open>Add\<close>, \<^verbatim>\<open>Merge\<close> and
  \<^verbatim>\<open>Clear\<close> keep it: precision in range, \<open>m = 2 ^ p\<close> registers.
\<close>

definition well_formed :: "HyperLogLog \<Rightarrow> bool" where
  "well_formed h \<longleftrightarrow>
     4 \<le> p h \<and> p h \<le> 16 \<and> unat (m h) = 2 ^ unat (p h) \<and> length (reg h) = 2 ^ unat (p h)"

section \<open>The register update in the words of the specification\<close>

text \<open>
  The specification describes \<^verbatim>\<open>Add\<close> for precision \<open>k\<close> and hash \<open>x\<close> by a bucket
  index, the top \<open>k\<close> bits of \<open>x\<close>, and a rank: one more than the number of leading
  zero bits of the low \<open>32 - k\<close> bits of \<open>x\<close> shifted left by \<open>k\<close>, with a sentinel bit
  set at position \<open>k - 1\<close>. These two definitions follow those words; \<open>Add\<close> above
  follows the code.
\<close>

definition bucket :: "nat \<Rightarrow> uint32 \<Rightarrow> nat" where
  "bucket k x = unat (drop_bit (32 - k) x)"

definition rank :: "nat \<Rightarrow> uint32 \<Rightarrow> nat" where
  "rank k x = LeadingZeros32 (push_bit k (take_bit (32 - k) x) OR push_bit (k - 1) 1) + 1"

section \<open>Sequences of operations\<close>

text \<open>
  A caller's sequence of \<^verbatim>\<open>Add\<close>, \<^verbatim>\<open>Clear\<close> and \<^verbatim>\<open>Merge\<close> calls on one sketch.
  When \<^verbatim>\<open>Merge\<close> returns its precision error the sketch is untouched and the caller
  goes on; a panic ends the run.
\<close>

datatype op = OpAdd uint32 | OpClear | OpMerge HyperLogLog

fun apply_op :: "HyperLogLog \<Rightarrow> op \<Rightarrow> error + HyperLogLog" where
  "apply_op h (OpAdd x) = Add h x"
| "apply_op h OpClear = Inr (Clear h)"
| "apply_op h (OpMerge other) = Merge h other"

fun run :: "HyperLogLog \<Rightarrow> op list \<Rightarrow> error + HyperLogLog" where
  "run h [] = Inr h"
| "run h (a # as) =
     (case apply_op h a of
        Inr h' \<Rightarrow> run h' as
      | Inl e \<Rightarrow> if e = ErrPrecisionMismatch then run h as else Inl e)"

text \<open>Every register is at most \<open>33 - p\<close>.\<close>

definition bounded :: "HyperLogLog \<Rightarrow> bool" where
  "bounded h \<longleftrightarrow> (\<forall>r \<in> set (reg h). unat r \<le> 33 - unat (p h))"

section \<open>The estimator\<close>

subsection \<open>float64 values\<close>

text \<open>
  \<^verbatim>\<open>Count\<close> computes in \<^verbatim>\<open>float64\<close>, the IEEE 754 binary64 format: a finite value is
  \<open>n * 2 ^ q\<close> with an integer \<open>n\<close> of at most 53 bits and \<open>- 1074 \<le> q\<close>, below \<open>2 ^ 1024\<close> in
  magnitude. \<open>Fin x\<close> is the finite value \<open>x\<close>; every operation rounds its exact result to
  the nearest such value, ties to the even significand (\<open>rnd\<close>), and gives an infinity from
  \<open>2 ^ 1024\<close> on. Zero carries no sign: no negative zero arises in this code, where every
  divisor is a converted unsigned integer, a sum of non-negative terms or a constant.
\<close>

datatype float64 = Fin real | PInf | NInf | NaN

text \<open>The number of binary digits of a positive integer.\<close>

function bit_length :: "int \<Rightarrow> int" where
  "bit_length n = (if n \<le> 0 then 0 else bit_length (n div 2) + 1)"
  by pat_completeness auto
termination
  by (relation "measure nat") auto

declare bit_length.simps [simp del]

text \<open>The binary exponent of a positive real: \<open>2 ^ expo x \<le> x < 2 ^ (expo x + 1)\<close>.\<close>

definition expo :: "real \<Rightarrow> int" where
  "expo x = (if 1 \<le> x then bit_length \<lfloor>x\<rfloor> - 1
             else - bit_length (\<lceil>1 / x\<rceil> - 1))"

text \<open>The nearest integer, the even one of two at the same distance.\<close>

definition rne :: "real \<Rightarrow> int" where
  "rne t = (let f = \<lfloor>t\<rfloor>; d = t - of_int f
            in if d < 1 / 2 then f else if 1 / 2 < d then f + 1
               else if even f then f else f + 1)"

text \<open>
  Rounding to \<^verbatim>\<open>float64\<close>: the significand is taken at the exponent \<open>q\<close> of the last of
  the 53 bits, which is at least that of the subnormal numbers.
\<close>

definition rnd :: "real \<Rightarrow> float64" where
  "rnd x =
     (if x = 0 then Fin 0
      else let q = max (expo \<bar>x\<bar> - 52) (- 1074);
               y = of_int (rne (x / 2 powi q)) * 2 powi q
           in if 2 ^ 1024 \<le> y then PInf
              else if y \<le> - (2 ^ 1024) then NInf
              else Fin y)"

text \<open>
  The operations follow IEEE 754 on the special values: a non-zero number divided by zero
  is an infinity, zero divided by zero is NaN, a number divided by an infinity is zero,
  every comparison with NaN is false.
\<close>

fun fneg :: "float64 \<Rightarrow> float64" where
  "fneg (Fin a) = Fin (- a)"
| "fneg PInf = NInf"
| "fneg NInf = PInf"
| "fneg NaN = NaN"

fun fadd :: "float64 \<Rightarrow> float64 \<Rightarrow> float64" where
  "fadd (Fin a) (Fin b) = rnd (a + b)"
| "fadd NaN _ = NaN"
| "fadd _ NaN = NaN"
| "fadd PInf NInf = NaN"
| "fadd NInf PInf = NaN"
| "fadd PInf _ = PInf"
| "fadd _ PInf = PInf"
| "fadd NInf _ = NInf"
| "fadd _ NInf = NInf"

definition fsub :: "float64 \<Rightarrow> float64 \<Rightarrow> float64" where
  "fsub a b = fadd a (fneg b)"

text \<open>The sign of a value: 1, 0 or -1; NaN has none.\<close>

fun fsgn :: "float64 \<Rightarrow> int option" where
  "fsgn (Fin a) = Some (if a > 0 then 1 else if a < 0 then - 1 else 0)"
| "fsgn PInf = Some 1"
| "fsgn NInf = Some (- 1)"
| "fsgn NaN = None"

definition inf_of_sign :: "int \<Rightarrow> float64" where
  "inf_of_sign s = (if s > 0 then PInf else if s < 0 then NInf else NaN)"

fun fmul :: "float64 \<Rightarrow> float64 \<Rightarrow> float64" where
  "fmul (Fin a) (Fin b) = rnd (a * b)"
| "fmul a b = (case (fsgn a, fsgn b) of
                 (Some s, Some t) \<Rightarrow> inf_of_sign (s * t)
               | _ \<Rightarrow> NaN)"

fun fdiv :: "float64 \<Rightarrow> float64 \<Rightarrow> float64" where
  "fdiv (Fin a) (Fin b) =
     (if b \<noteq> 0 then rnd (a / b)
      else if a > 0 then PInf else if a < 0 then NInf else NaN)"
| "fdiv (Fin a) PInf = Fin 0"
| "fdiv (Fin a) NInf = Fin 0"
| "fdiv PInf (Fin b) = (if b \<ge> 0 then PInf else NInf)"
| "fdiv NInf (Fin b) = (if b \<ge> 0 then NInf else PInf)"
| "fdiv _ _ = NaN"

fun fle :: "float64 \<Rightarrow> float64 \<Rightarrow> bool" where
  "fle (Fin a) (Fin b) = (a \<le> b)"
| "fle NaN _ = False"
| "fle _ NaN = False"
| "fle NInf _ = True"
| "fle _ PInf = True"
| "fle _ _ = False"

fun flt :: "float64 \<Rightarrow> float64 \<Rightarrow> bool" where
  "flt (Fin a) (Fin b) = (a < b)"
| "flt NaN _ = False"
| "flt _ NaN = False"
| "flt PInf _ = False"
| "flt _ NInf = False"
| "flt _ _ = True"

text \<open>
  \<^verbatim>\<open>math.Log\<close> belongs to the standard library, not to this repository. \<open>flog\<close> follows
  its documentation: the natural logarithm, \<open>-Inf\<close> at 0, NaN below 0 and \<open>+Inf\<close> at
  \<open>+Inf\<close>; the logarithm of a positive number is taken as the \<^verbatim>\<open>float64\<close> nearest to it.
\<close>

fun flog :: "float64 \<Rightarrow> float64" where
  "flog (Fin a) = (if a > 0 then rnd (ln a) else if a = 0 then NInf else NaN)"
| "flog PInf = PInf"
| "flog NInf = NaN"
| "flog NaN = NaN"

text \<open>
  The conversions \<^verbatim>\<open>float64(n)\<close> of an unsigned integer, which rounds, and \<^verbatim>\<open>uint64(f)\<close>,
  which discards the fraction; when the value does not fit \<^verbatim>\<open>uint64\<close> (or is NaN) Go
  leaves the result to the implementation, which is \<open>None\<close> here.
\<close>

definition float_of_word :: "'a::len word \<Rightarrow> float64" where
  "float_of_word n = rnd (real (unat n))"

fun to_uint64 :: "float64 \<Rightarrow> uint64 option" where
  "to_uint64 (Fin a) =
     (if - 1 < a \<and> a < 2 ^ 64 then Some (of_nat (nat \<lfloor>a\<rfloor>)) else None)"
| "to_uint64 _ = None"

subsection \<open>common.go and Count\<close>

text \<open>
  The decimal constants of \<^verbatim>\<open>alpha\<close> are \<^verbatim>\<open>float64\<close> constants: each is the \<^verbatim>\<open>float64\<close>
  nearest to the decimal.
\<close>

definition alpha :: "uint32 \<Rightarrow> float64" where
  "alpha n =
     (if n = 16 then rnd 0.673
      else if n = 32 then rnd 0.697
      else if n = 64 then rnd 0.709
      else fdiv (rnd 0.7213) (fadd (Fin 1) (fdiv (rnd 1.079) (float_of_word n))))"

text \<open>The logarithm is a parameter of \<^verbatim>\<open>linearCounting\<close> and of \<^verbatim>\<open>Count\<close> below.\<close>

definition linearCounting :: "(float64 \<Rightarrow> float64) \<Rightarrow> uint32 \<Rightarrow> uint32 \<Rightarrow> float64" where
  "linearCounting lg n v =
     (let fm = float_of_word n in fmul fm (lg (fdiv fm (float_of_word v))))"

text \<open>The counter of \<^verbatim>\<open>countZeros\<close> is a \<^verbatim>\<open>uint32\<close>: \<^verbatim>\<open>c++\<close> wraps.\<close>

definition countZeros :: "uint8 list \<Rightarrow> uint32" where
  "countZeros s = fold (\<lambda>v c. if v = 0 then c + 1 else c) s 0"

text \<open>
  \<^verbatim>\<open>calculateEstimate\<close>: the term of a register \<open>val\<close> is
  \<^verbatim>\<open>1.0 / float64(uint64(1)<<val)\<close>, where the shift is a 64-bit shift by a \<^verbatim>\<open>uint8\<close>
  count: for \<open>val \<ge> 64\<close> it is 0 and the term is \<open>+Inf\<close>. The terms are added in index
  order, and the product \<^verbatim>\<open>alpha(m) * fm * fm / sum\<close> associates to the left.
\<close>

definition calculateEstimate :: "uint8 list \<Rightarrow> float64" where
  "calculateEstimate s =
     (if length s = 0 then Fin 0
      else let sum = fold (\<lambda>val sum. fadd sum
                       (fdiv (Fin 1) (float_of_word (push_bit (unat val) (1 :: uint64))))) s (Fin 0);
               n = (of_nat (length s) :: uint32);
               fm = float_of_word n
           in fdiv (fmul (fmul (alpha n) fm) fm) sum)"

text \<open>
  \<^verbatim>\<open>const two32 = 1 << 32\<close> is an untyped integer constant, so \<^verbatim>\<open>two32/30\<close> in
  \<^verbatim>\<open>Count\<close> is a constant integer division (143165576), converted to \<^verbatim>\<open>float64\<close>
  for the comparison; \<^verbatim>\<open>est/two32\<close> is a \<^verbatim>\<open>float64\<close> division. \<open>Count_with\<close> is
  \<^verbatim>\<open>Count\<close> over a logarithm \<open>lg\<close> in the place of \<^verbatim>\<open>math.Log\<close>.
\<close>

definition two32 :: int where
  "two32 = push_bit 32 1"

definition Count_with :: "(float64 \<Rightarrow> float64) \<Rightarrow> HyperLogLog \<Rightarrow> uint64 option" where
  "Count_with lg h =
     (let est = calculateEstimate (reg h)
      in if fle est (fmul (float_of_word (m h)) (Fin 2.5)) then
           (let v = countZeros (reg h)
            in if v \<noteq> 0 then to_uint64 (linearCounting lg (m h) v)
               else to_uint64 est)
         else if flt est (Fin (of_int (two32 div 30))) then to_uint64 est
         else to_uint64 (fmul (Fin (of_int (- two32)))
                           (lg (fsub (Fin 1) (fdiv est (Fin (of_int two32)))))))"

definition Count :: "HyperLogLog \<Rightarrow> uint64 option" where
  "Count h = Count_with flog h"

subsection \<open>The estimate in the words of the specification\<close>

text \<open>
  The raw estimate \<open>alpha(m) * m ^ 2 / (\<Sum>i. 2 ^ - registers[i])\<close> over the reals, with the
  constant \<open>alpha(m)\<close> of the specification, and the count \<open>V\<close> of registers equal to 0.
\<close>

definition alpha_spec :: "nat \<Rightarrow> real" where
  "alpha_spec n =
     (if n = 16 then 0.673 else if n = 32 then 0.697 else if n = 64 then 0.709
      else 0.7213 / (1 + 1.079 / real n))"

definition rawEstimate :: "uint8 list \<Rightarrow> real" where
  "rawEstimate rs =
     alpha_spec (length rs) * (real (length rs))\<^sup>2 / (\<Sum>r\<leftarrow>rs. 1 / 2 ^ unat r)"

definition zeros :: "uint8 list \<Rightarrow> nat" where
  "zeros rs = length (filter (\<lambda>r. r = 0) rs)"

text \<open>
  A computed value \<open>y\<close> is the exact value \<open>x \<ge> 0\<close> up to \<open>k\<close> roundings: each rounding
  moves a value of the normal range by a factor between \<open>1 - 2 ^ - 53\<close> and its inverse.
\<close>

definition near :: "nat \<Rightarrow> real \<Rightarrow> real \<Rightarrow> bool" where
  "near k x y \<longleftrightarrow> 0 \<le> x \<and> x * (1 - 1 / 2 ^ 53) ^ k \<le> y \<and> y * (1 - 1 / 2 ^ 53) ^ k \<le> x"

section \<open>Serialization\<close>

subsection \<open>encoding/base64, StdEncoding\<close>

text \<open>
  \<^verbatim>\<open>MarshalText\<close> and \<^verbatim>\<open>UnmarshalText\<close> call Go's \<^verbatim>\<open>base64.StdEncoding\<close>: the
  alphabet of RFC 4648 with \<open>=\<close> padding. Text is a list of bytes, written as
  characters. \<^verbatim>\<open>Encode\<close> packs three bytes into a \<^verbatim>\<open>uint\<close> and emits four
  characters, and pads a last group of one or two bytes. \<^verbatim>\<open>Decode\<close> ignores the
  characters CR and LF wherever they stand, reads groups of four, accepts padding only
  at the end of the input, and does not check the unused bits of a padded group (the
  encoding is not strict).
\<close>

definition encodeStd :: string where
  "encodeStd = ''ABCDEFGHIJKLMNOPQRSTUVWXYZabcdefghijklmnopqrstuvwxyz0123456789+/''"

definition padChar :: char where
  "padChar = CHR ''=''"

definition encode_sextet :: "uint64 \<Rightarrow> char" where
  "encode_sextet s = encodeStd ! unat s"

definition decodeMap :: "char \<Rightarrow> uint64 option" where
  "decodeMap c = map_option of_nat (map_of (zip encodeStd [0..<64]) c)"

definition pack3 :: "uint8 \<Rightarrow> uint8 \<Rightarrow> uint8 \<Rightarrow> uint64" where
  "pack3 b0 b1 b2 = push_bit 16 (ucast b0) OR push_bit 8 (ucast b1) OR ucast b2"

definition pack4 :: "uint64 \<Rightarrow> uint64 \<Rightarrow> uint64 \<Rightarrow> uint64 \<Rightarrow> uint64" where
  "pack4 d0 d1 d2 d3 = push_bit 18 d0 OR push_bit 12 d1 OR push_bit 6 d2 OR d3"

fun b64_encode :: "uint8 list \<Rightarrow> string" where
  "b64_encode (b0 # b1 # b2 # rest) =
     (let val = pack3 b0 b1 b2
      in encode_sextet (drop_bit 18 val AND 0x3F) # encode_sextet (drop_bit 12 val AND 0x3F)
         # encode_sextet (drop_bit 6 val AND 0x3F) # encode_sextet (val AND 0x3F)
         # b64_encode rest)"
| "b64_encode [b0, b1] =
     (let val = pack3 b0 b1 0
      in [encode_sextet (drop_bit 18 val AND 0x3F), encode_sextet (drop_bit 12 val AND 0x3F),
          encode_sextet (drop_bit 6 val AND 0x3F), padChar])"
| "b64_encode [b0] =
     (let val = pack3 b0 0 0
      in [encode_sextet (drop_bit 18 val AND 0x3F), encode_sextet (drop_bit 12 val AND 0x3F),
          padChar, padChar])"
| "b64_encode [] = []"

text \<open>
  \<open>decode_quanta\<close> decodes an input from which CR and LF have been removed. A group of
  four ends the input when its third or fourth character is the padding character.
\<close>

fun decode_quanta :: "string \<Rightarrow> error + uint8 list" where
  "decode_quanta [] = Inr []"
| "decode_quanta (c0 # c1 # c2 # c3 # rest) =
     (case (decodeMap c0, decodeMap c1) of
        (Some d0, Some d1) \<Rightarrow>
          (case decodeMap c2 of
             None \<Rightarrow>
               if c2 = padChar \<and> c3 = padChar \<and> rest = []
               then Inr [ucast (drop_bit 16 (pack4 d0 d1 0 0))]
               else Inl CorruptInputError
           | Some d2 \<Rightarrow>
               (case decodeMap c3 of
                  None \<Rightarrow>
                    if c3 = padChar \<and> rest = []
                    then Inr [ucast (drop_bit 16 (pack4 d0 d1 d2 0)),
                              ucast (drop_bit 8 (pack4 d0 d1 d2 0))]
                    else Inl CorruptInputError
                | Some d3 \<Rightarrow>
                    (case decode_quanta rest of
                       Inl e \<Rightarrow> Inl e
                     | Inr bs \<Rightarrow>
                         Inr (ucast (drop_bit 16 (pack4 d0 d1 d2 d3))
                              # ucast (drop_bit 8 (pack4 d0 d1 d2 d3))
                              # ucast (pack4 d0 d1 d2 d3) # bs))))
      | _ \<Rightarrow> Inl CorruptInputError)"
| "decode_quanta _ = Inl CorruptInputError"

definition b64_decode :: "string \<Rightarrow> error + uint8 list" where
  "b64_decode text = decode_quanta (filter (\<lambda>c. c \<noteq> CHR 0x0A \<and> c \<noteq> CHR 0x0D) text)"

subsection \<open>MarshalText and UnmarshalText\<close>

text \<open>
  \<^verbatim>\<open>UnmarshalText\<close> decodes into a buffer of \<^verbatim>\<open>DecodedLen(len(text))\<close> bytes and
  passes the \<open>n\<close> decoded bytes \<^verbatim>\<open>reg[:n]\<close> to \<^verbatim>\<open>NewReg\<close>; on success the receiver is
  overwritten by the new sketch, on failure it is unchanged and the error is returned.
\<close>

definition MarshalText :: "HyperLogLog \<Rightarrow> error + string" where
  "MarshalText h = Inr (b64_encode (reg h))"

definition UnmarshalText :: "HyperLogLog \<Rightarrow> string \<Rightarrow> error + HyperLogLog" where
  "UnmarshalText h text =
     (case b64_decode text of
        Inl e \<Rightarrow> Inl e
      | Inr r \<Rightarrow> (case NewReg r of Inl e \<Rightarrow> Inl e | Inr h2 \<Rightarrow> Inr h2))"

subsection \<open>encoding/gob\<close>

text \<open>
  \<^verbatim>\<open>GobEncode\<close> writes three values to one gob stream with three \<^verbatim>\<open>Encode\<close> calls
  and \<^verbatim>\<open>GobDecode\<close> reads them back with three \<^verbatim>\<open>Decode\<close> calls. The wire format of
  \<^verbatim>\<open>encoding/gob\<close> is the library's; a stream is modelled as the list of the
  self-describing values it carries: a byte slice, or an unsigned integer. \<^verbatim>\<open>Decode\<close>
  takes the next value of the stream and fails at the end of the stream, on a value of
  the other kind, and on an unsigned integer that overflows the destination type.
  A top-level value is sent even when it is zero or empty.
\<close>

datatype gob_value = GobBytes "uint8 list" | GobUint nat

fun decode_bytes :: "gob_value list \<Rightarrow> error + (uint8 list \<times> gob_value list)" where
  "decode_bytes (GobBytes bs # rest) = Inr (bs, rest)"
| "decode_bytes _ = Inl GobDecodeError"

fun decode_uint :: "nat \<Rightarrow> gob_value list \<Rightarrow> error + (nat \<times> gob_value list)" where
  "decode_uint bits (GobUint n # rest) =
     (if n < 2 ^ bits then Inr (n, rest) else Inl GobDecodeError)"
| "decode_uint bits _ = Inl GobDecodeError"

definition GobEncode :: "HyperLogLog \<Rightarrow> error + gob_value list" where
  "GobEncode h = Inr [GobBytes (reg h), GobUint (unat (m h)), GobUint (unat (p h))]"

text \<open>
  \<^verbatim>\<open>GobDecode\<close> assigns each field as soon as it is decoded, so a failure leaves the
  receiver partly updated: the result is the error, if any, and the receiver.
\<close>

definition GobDecode :: "HyperLogLog \<Rightarrow> gob_value list \<Rightarrow> error option \<times> HyperLogLog" where
  "GobDecode h b =
     (case decode_bytes b of
        Inl e \<Rightarrow> (Some e, h)
      | Inr (r, b1) \<Rightarrow>
          let h1 = h\<lparr>reg := r\<rparr> in
          (case decode_uint 32 b1 of
             Inl e \<Rightarrow> (Some e, h1)
           | Inr (n, b2) \<Rightarrow>
               let h2 = h1\<lparr>m := of_nat n\<rparr> in
               (case decode_uint 8 b2 of
                  Inl e \<Rightarrow> (Some e, h2)
                | Inr (k, b3) \<Rightarrow> (None, h2\<lparr>p := of_nat k\<rparr>))))"

section \<open>Merge on register buffers in memory\<close>

text \<open>
  \<^verbatim>\<open>NewReg\<close> keeps the slice it is given (``uses passed array as registers''), so two
  sketches can hold windows of one array. For \<^verbatim>\<open>Merge\<close>, which reads one buffer while it
  writes the other, the sketch is therefore also modelled with its slice header: a base
  address and a length into a byte memory. \<open>load\<close> reads the sketch value out of the
  memory.
\<close>

type_synonym memory = "nat \<Rightarrow> uint8"

record slice =
  base :: nat
  len :: nat

record sketch_ref =
  buf :: slice
  rm :: uint32
  rp :: uint8

definition load :: "memory \<Rightarrow> sketch_ref \<Rightarrow> HyperLogLog" where
  "load M r = \<lparr>reg = map (\<lambda>i. M (base (buf r) + i)) [0..<len (buf r)], m = rm r, p = rp r\<rparr>"

text \<open>
  The loop \<^verbatim>\<open>for i, v := range other.reg\<close> from index \<open>i\<close> on: \<open>v\<close> is read from the
  memory as it is at that iteration, \<^verbatim>\<open>h.reg[i]\<close> panics outside the slice of \<open>h\<close>.
\<close>

function merge_mem :: "memory \<Rightarrow> slice \<Rightarrow> slice \<Rightarrow> nat \<Rightarrow> error + memory" where
  "merge_mem M hs os i =
     (if i < len os then
        (let v = M (base os + i)
         in if i \<ge> len hs then Inl PanicIndexOutOfRange
            else merge_mem (if v > M (base hs + i) then M(base hs + i := v) else M) hs os (Suc i))
      else Inr M)"
  by pat_completeness auto
termination
  by (relation "measure (\<lambda>(M, hs, os, i). len os - i)") auto

declare merge_mem.simps [simp del]

definition Merge_mem :: "memory \<Rightarrow> sketch_ref \<Rightarrow> sketch_ref \<Rightarrow> error + memory" where
  "Merge_mem M h other =
     (if rp h \<noteq> rp other then Inl ErrPrecisionMismatch
      else merge_mem M (buf h) (buf other) 0)"

text \<open>Two slices are the same window, or one ends before the other begins.\<close>

definition separate :: "slice \<Rightarrow> slice \<Rightarrow> bool" where
  "separate s t \<longleftrightarrow> s = t \<or> base s + len s \<le> base t \<or> base t + len t \<le> base s"

text \<open>
  Two overlapping windows of one array of 24 bytes, the first 8 of them 5 and the others
  0: \<^verbatim>\<open>h\<close> on \<^verbatim>\<open>a[8:24]\<close> and \<^verbatim>\<open>other\<close> on \<^verbatim>\<open>a[0:16]\<close>.
\<close>

definition overlap_mem :: memory where
  "overlap_mem a = (if a < 8 then 5 else 0)"

definition overlap_h :: sketch_ref where
  "overlap_h = \<lparr>buf = \<lparr>base = 8, len = 16\<rparr>, rm = 16, rp = 4\<rparr>"

definition overlap_other :: sketch_ref where
  "overlap_other = \<lparr>buf = \<lparr>base = 0, len = 16\<rparr>, rm = 16, rp = 4\<rparr>"

text \<open>Two disjoint windows of one array: \<^verbatim>\<open>a[0:16]\<close> and \<^verbatim>\<open>a[16:32]\<close>.\<close>

definition apart_mem :: memory where
  "apart_mem a = (if a = 0 then 3 else if a = 17 then 2 else if a = 16 then 1 else 0)"

definition apart_h :: sketch_ref where
  "apart_h = \<lparr>buf = \<lparr>base = 0, len = 16\<rparr>, rm = 16, rp = 4\<rparr>"

definition apart_other :: sketch_ref where
  "apart_other = \<lparr>buf = \<lparr>base = 16, len = 16\<rparr>, rm = 16, rp = 4\<rparr>"

text \<open>A third window of that array, all zero: \<^verbatim>\<open>a[32:48]\<close>.\<close>

definition apart_third :: sketch_ref where
  "apart_third = \<lparr>buf = \<lparr>base = 32, len = 16\<rparr>, rm = 16, rp = 4\<rparr>"

section \<open>Bit lengths and leading zeros\<close>

lemma Len_less: "n < 2 ^ Len n"
proof (induction n rule: Len.induct)
  case (1 n)
  show ?case
  proof (cases "n = 0")
    case True then show ?thesis by (simp add: Len.simps)
  next
    case False
    with 1 have "n div 2 < 2 ^ Len (n div 2)" by simp
    then have "n < 2 * 2 ^ Len (n div 2)" by linarith
    with False show ?thesis by (subst Len.simps) simp
  qed
qed

lemma Len_ge: "0 < n \<Longrightarrow> 2 ^ (Len n - 1) \<le> n"
proof (induction n rule: Len.induct)
  case (1 n)
  show ?case
  proof (cases "n div 2 = 0")
    case True
    with 1(2) have "n = 1" by (simp add: div_eq_0_iff) 
    then show ?thesis by (simp add: Len.simps)
  next
    case False
    with 1 have ih: "2 ^ (Len (n div 2) - 1) \<le> n div 2" by simp
    from False have pos: "0 < Len (n div 2)" by (subst Len.simps) simp
    have "Len n = Suc (Len (n div 2))" using 1(2) by (subst Len.simps) simp
    then have "(2::nat) ^ (Len n - 1) = 2 * 2 ^ (Len (n div 2) - 1)"
      using pos by (cases "Len (n div 2)") simp_all
    with ih show ?thesis by linarith
  qed
qed

lemma Len_le_if: "n < 2 ^ k \<Longrightarrow> Len n \<le> k"
proof (rule ccontr)
  assume a: "n < 2 ^ k" and "\<not> Len n \<le> k"
  then have k: "k \<le> Len n - 1" and pos: "0 < n" by (auto simp: Len.simps intro: Nat.gr0I)
  have "(2::nat) ^ k \<le> 2 ^ (Len n - 1)" using k by (simp add: power_increasing)
  with Len_ge [OF pos] a show False by linarith
qed

lemma Len_gt_if: "2 ^ k \<le> n \<Longrightarrow> k < Len n"
proof (rule ccontr)
  assume a: "2 ^ k \<le> n" and "\<not> k < Len n"
  then have "(2::nat) ^ Len n \<le> 2 ^ k" by (simp add: power_increasing)
  with Len_less [of n] a show False by linarith
qed

lemma Len_pow2: "Len (2 ^ k) = Suc k"
  using Len_gt_if [of k "2 ^ k"] Len_le_if [of "2 ^ k" "Suc k"] by simp

lemma Len_0: "Len 0 = 0" by (simp add: Len.simps)

section \<open>Construction from a register buffer\<close>

lemma unat_of_nat_len32: "n \<le> 65536 \<Longrightarrow> unat (of_nat n :: uint32) = n"
  by (simp add: unat_of_nat)

lemma unat_of_nat_u8: "k < 256 \<Longrightarrow> unat (of_nat k :: uint8) = k"
  by (simp add: unat_of_nat)

lemma Len_range: "16 \<le> n \<Longrightarrow> n \<le> 65536 \<Longrightarrow> 5 \<le> Len n \<and> Len n \<le> 17"
  using Len_gt_if [of 4 n] Len_le_if [of n 17] by simp

lemma NewReg_p: 
  assumes "16 \<le> n" "n \<le> 65536"
  shows "31 - clz32 (of_nat n) = (of_nat (Len n - 1) :: uint8)"
proof -
  from Len_range [OF assms] have r: "5 \<le> Len n" "Len n \<le> 17" by simp_all
  have lz: "LeadingZeros32 (of_nat n) = 32 - Len n"
    using assms by (simp add: LeadingZeros32_def unat_of_nat_len32)
  have "(of_nat (Len n - 1) :: uint8) + of_nat (32 - Len n) = of_nat ((Len n - 1) + (32 - Len n))"
    by (simp only: of_nat_add)
  also have "(Len n - 1) + (32 - Len n) = 31" using r by simp
  finally have "(of_nat (Len n - 1) :: uint8) + of_nat (32 - Len n) = 31" by simp
  then have "(31 :: uint8) - of_nat (32 - Len n) = of_nat (Len n - 1)"
    by (simp only: diff_eq_eq)
  then show ?thesis
    by (simp only: clz32_def lz)
qed

lemma NewReg_p_unat: 
  assumes "16 \<le> n" "n \<le> 65536"
  shows "unat (31 - clz32 (of_nat n)) = Len n - 1"
proof -
  from Len_range [OF assms] have "Len n - 1 < 256" by arith
  then show ?thesis
    by (simp only: NewReg_p [OF assms] unat_of_nat_u8)
qed

lemma pow2_Len: "(\<exists>k. n = 2 ^ k) \<longleftrightarrow> 2 ^ (Len n - 1) = n"
proof
  assume "\<exists>k. n = 2 ^ k"
  then obtain k where "n = 2 ^ k" ..
  then show "2 ^ (Len n - 1) = n" by (simp add: Len_pow2)
next
  assume "2 ^ (Len n - 1) = n"
  then show "\<exists>k. n = 2 ^ k" by (rule exI [where x = "Len n - 1", OF sym])
qed

lemma NewReg_eq:
  "NewReg r =
     (if length r > 65536 \<or> length r < 16 then Inl ErrRegistersRange
      else if 2 ^ (Len (length r) - 1) \<noteq> length r then Inl ErrNotPowerOfTwo
      else Inr \<lparr>reg = r, m = of_nat (length r), p = of_nat (Len (length r) - 1)\<rparr>)"
proof (cases "length r > 65536 \<or> length r < 16")
  case True
  then show ?thesis by (simp add: NewReg_def)
next
  case False
  then have rng: "16 \<le> length r" "length r \<le> 65536" by simp_all
  note pu = NewReg_p_unat [OF rng]
  note pw = NewReg_p [OF rng]
  have pb: "push_bit (Len (length r) - 1) (1::int) = int (2 ^ (Len (length r) - 1))"
    by (simp add: push_bit_eq_mult)
  have neq: "int (2 ^ (Len (length r) - 1)) \<noteq> int (length r) \<longleftrightarrow> 2 ^ (Len (length r) - 1) \<noteq> length r"
    by (simp only: of_nat_eq_iff)
  show ?thesis
  proof (cases "2 ^ (Len (length r) - 1) = length r")
    case True
    have "NewReg r = Inr \<lparr>reg = r, m = of_int (int (2 ^ (Len (length r) - 1))), p = of_nat (Len (length r) - 1)\<rparr>"
      unfolding NewReg_def Let_def pu pb using False True pw by (simp del: of_nat_power)
    then show ?thesis using False True by (simp del: of_nat_power)
  next
    case F2: False
    have "NewReg r = Inl ErrNotPowerOfTwo"
      unfolding NewReg_def Let_def pu pb neq using False F2 by simp
    then show ?thesis using False F2 by simp
  qed
qed

text \<open>
  Claim C7. \<^verbatim>\<open>NewReg\<close> succeeds exactly when the buffer length is a power of two
  within [16, 65536]; the sketch then uses the buffer as its registers, \<open>p\<close> is the
  base-2 logarithm of the length and \<open>m\<close> is the length. It fails with the
  out-of-range error exactly when the length is below \<open>2 ^ 4\<close> or above \<open>2 ^ 16\<close>,
  and with the power-of-two error exactly when the length is in range and not a power of
  two.
\<close>

theorem NewReg_spec:
  "((\<exists>h. NewReg r = Inr h) \<longleftrightarrow> (\<exists>k. length r = 2 ^ k) \<and> 16 \<le> length r \<and> length r \<le> 65536)
   \<and> (\<forall>h. NewReg r = Inr h \<longrightarrow> reg h = r \<and> length r = 2 ^ unat (p h) \<and> unat (m h) = length r)
   \<and> (NewReg r = Inl ErrRegistersRange \<longleftrightarrow> length r < 2 ^ 4 \<or> 2 ^ 16 < length r)
   \<and> (NewReg r = Inl ErrNotPowerOfTwo \<longleftrightarrow>
        16 \<le> length r \<and> length r \<le> 65536 \<and> (\<nexists>k. length r = 2 ^ k))"
proof (cases "length r > 65536 \<or> length r < 16")
  case True
  then show ?thesis by (auto simp: NewReg_eq)
next
  case False
  then have rng: "16 \<le> length r" "length r \<le> 65536" by simp_all
  from Len_range [OF rng] have lr: "Len (length r) - 1 < 256" by arith
  show ?thesis
  proof (cases "2 ^ (Len (length r) - 1) = length r")
    case True
    then have ex: "\<exists>k. length r = 2 ^ k" by (simp add: pow2_Len)
    have eq: "NewReg r = Inr \<lparr>reg = r, m = of_nat (length r), p = of_nat (Len (length r) - 1)\<rparr>"
      using rng True by (simp add: NewReg_eq)
    show ?thesis
      using rng ex True lr
      by (simp add: eq unat_of_nat_u8 unat_of_nat_len32)
  next
    case F: False
    then have nex: "\<nexists>k. length r = 2 ^ k" by (simp add: pow2_Len)
    have eq: "NewReg r = Inl ErrNotPowerOfTwo"
      using rng F by (simp add: NewReg_eq)
    show ?thesis using rng nex by (simp add: eq)
  qed
qed

theorem NewReg_spec_witness:
  "(\<exists>h. NewReg (replicate 16 0) = Inr h \<and> reg h = replicate 16 0 \<and> 16 = (2::nat) ^ unat (p h) \<and> unat (m h) = 16)
   \<and> NewReg (replicate 8 0) = Inl ErrRegistersRange
   \<and> NewReg (replicate 17 0) = Inl ErrNotPowerOfTwo"
proof -
  have a: "\<exists>k. length (replicate 16 (0::uint8)) = 2 ^ k"
    by (rule exI [where x = 4]) simp
  have b: "\<nexists>k. length (replicate 17 (0::uint8)) = 2 ^ k"
    using pow2_Len [of 17] by (simp add: Len.simps)
  show ?thesis
    using NewReg_spec [of "replicate 16 0"] NewReg_spec [of "replicate 8 0"]
      NewReg_spec [of "replicate 17 0"] a b
    by auto
qed

section \<open>Merge\<close>

lemma upd_max: "i < length hr \<Longrightarrow> (if v > hr ! i then hr[i := v] else hr) ! i = max (hr ! i) (v::uint8)"
  by (cases "hr ! i < v") (simp_all add: max_def not_less antisym)

lemma upd_other: "j \<noteq> i \<Longrightarrow> (if v > hr ! i then hr[i := v] else hr) ! j = hr ! j"
  by simp

lemma upd_len: "length (if v > hr ! i then hr[i := v] else hr) = length hr"
  by simp

lemma merge_loop_ok:
  "i + length vs \<le> length hr \<Longrightarrow>
   \<exists>r. merge_loop hr i vs = Inr r \<and> length r = length hr \<and>
       (\<forall>j < length hr. r ! j =
          (if i \<le> j \<and> j < i + length vs then max (hr ! j) (vs ! (j - i)) else hr ! j))"
proof (induction vs arbitrary: hr i)
  case Nil
  then show ?case by auto
next
  case (Cons v vs)
  define hr' where "hr' = (if v > hr ! i then hr[i := v] else hr)"
  have len': "length hr' = length hr" by (simp add: hr'_def)
  from Cons.prems have i: "i < length hr" and le: "Suc i + length vs \<le> length hr'"
    by (simp_all add: len')
  from Cons.IH [OF le] obtain r where r1: "merge_loop hr' (Suc i) vs = Inr r"
    and r2: "length r = length hr'"
    and r3: "\<forall>j < length hr'. r ! j =
        (if Suc i \<le> j \<and> j < Suc i + length vs then max (hr' ! j) (vs ! (j - Suc i)) else hr' ! j)"
    by (elim exE conjE)
  have step: "merge_loop hr i (v # vs) = Inr r" using i r1 by (simp add: hr'_def)
  have len: "length r = length hr" using r2 len' by simp
  have nth: "r ! j = (if i \<le> j \<and> j < i + length (v # vs) then max (hr ! j) ((v # vs) ! (j - i)) else hr ! j)"
    if j: "j < length hr" for j
  proof -
    from j have j': "j < length hr'" by (simp add: len')
    note rj = r3 [rule_format, OF j']
    consider "j < i" | "j = i" | "i < j" by linarith
    then show ?thesis
    proof cases
      case 1
      then have "hr' ! j = hr ! j" unfolding hr'_def by (intro upd_other) simp
      with 1 rj show ?thesis by simp
    next
      case 2
      have "hr' ! i = max (hr ! i) v" unfolding hr'_def using i by (rule upd_max)
      with 2 rj show ?thesis by simp
    next
      case 3
      then have a: "(v # vs) ! (j - i) = vs ! (j - Suc i)" by (simp add: nth_Cons')
      from 3 have b: "hr' ! j = hr ! j" unfolding hr'_def by (intro upd_other) simp
      from 3 have c: "Suc i \<le> j" "i \<le> j" by simp_all
      have d: "j < Suc i + length vs \<longleftrightarrow> j < i + length (v # vs)" by simp
      show ?thesis unfolding a using rj c by (simp only: b d if_True simp_thms)
    qed
  qed
  show ?case
  proof (intro exI conjI allI impI)
    show "merge_loop hr i (v # vs) = Inr r" by (fact step)
    show "length r = length hr" by (fact len)
    show "r ! j = (if i \<le> j \<and> j < i + length (v # vs) then max (hr ! j) ((v # vs) ! (j - i)) else hr ! j)"
      if "j < length hr" for j using that by (rule nth)
  qed
qed

lemma merge_loop_map2:
  assumes "length vs = length hr"
  shows "merge_loop hr 0 vs = Inr (map2 max hr vs)"
proof -
  from assms have "0 + length vs \<le> length hr" by simp
  from merge_loop_ok [OF this] obtain r where r: "merge_loop hr 0 vs = Inr r"
    "length r = length hr"
    "\<forall>j < length hr. r ! j = (if 0 \<le> j \<and> j < 0 + length vs then max (hr ! j) (vs ! (j - 0)) else hr ! j)"
    by (elim exE conjE)
  have "r = map2 max hr vs"
  proof (rule nth_equalityI)
    show "length r = length (map2 max hr vs)" using r(2) assms by simp
  next
    fix j assume "j < length r"
    then show "r ! j = map2 max hr vs ! j" using r(2,3) assms by simp
  qed
  with r(1) show ?thesis by simp
qed

lemma Merge_eq:
  assumes "p h = p other" "length (reg other) = length (reg h)"
  shows "Merge h other = Inr (h\<lparr>reg := map2 max (reg h) (reg other)\<rparr>)"
  using assms by (simp add: Merge_def merge_loop_map2)

lemma well_formed_same_length:
  "well_formed h \<Longrightarrow> well_formed other \<Longrightarrow> p h = p other \<Longrightarrow>
   length (reg other) = length (reg h) \<and> m other = m h"
proof -
  assume "well_formed h" "well_formed other" "p h = p other"
  then have "length (reg other) = length (reg h)" and "unat (m other) = unat (m h)"
    by (simp_all add: well_formed_def)
  then show ?thesis by (simp only: word_unat_eq_iff simp_thms)
qed

text \<open>
  \<open>Merge\<close> on sketch values: the receiver and the argument have buffers of their own.
\<close>

lemma Merge_value:
  assumes "well_formed h" and "well_formed other"
  shows "((\<exists>e. Merge h other = Inl e) \<longleftrightarrow> p h \<noteq> p other)
       \<and> (p h \<noteq> p other \<longrightarrow> Merge h other = Inl ErrPrecisionMismatch)
       \<and> (p h = p other \<longrightarrow>
            (\<exists>h'. Merge h other = Inr h' \<and> p h' = p h \<and> m h' = m h
                \<and> length (reg h') = length (reg h)
                \<and> (\<forall>i < length (reg h). reg h' ! i = max (reg h ! i) (reg other ! i))))"
proof (cases "p h = p other")
  case True
  have len: "length (reg other) = length (reg h)"
    using well_formed_same_length [OF assms True] by (rule conjunct1)
  define h' where "h' = h\<lparr>reg := map2 max (reg h) (reg other)\<rparr>"
  have eq: "Merge h other = Inr h'"
    unfolding h'_def using True len by (rule Merge_eq)
  have no_err: "\<not> (\<exists>e. Merge h other = Inl e)" by (simp add: eq)
  have nth: "\<forall>i < length (reg h). reg h' ! i = max (reg h ! i) (reg other ! i)"
    by (simp add: h'_def len)
  have "p h' = p h" "m h' = m h" "length (reg h') = length (reg h)"
    by (simp_all add: h'_def len)
  with eq nth have "\<exists>h'. Merge h other = Inr h' \<and> p h' = p h \<and> m h' = m h
                \<and> length (reg h') = length (reg h)
                \<and> (\<forall>i < length (reg h). reg h' ! i = max (reg h ! i) (reg other ! i))"
    by (intro exI [of _ h']) (simp only: simp_thms)
  with True no_err show ?thesis by (simp only: simp_thms)
next
  case False
  have "Merge h other = Inl ErrPrecisionMismatch" using False by (simp add: Merge_def)
  with False show ?thesis by simp
qed

section \<open>Add\<close>

lemma p_range_unat: "4 \<le> (q::uint8) \<Longrightarrow> q \<le> 16 \<Longrightarrow> 4 \<le> unat q \<and> unat q \<le> 16"
  by (simp add: word_le_nat_alt)

lemma unat_32_minus: 
  assumes "4 \<le> (q::uint8)" "q \<le> 16"
  shows "unat (32 - q) = 32 - unat q"
proof -
  from assms have "q \<le> 32" by (simp add: word_le_nat_alt)
  then show ?thesis by (simp add: unat_sub)
qed

lemma unat_minus_1: 
  assumes "4 \<le> (q::uint8)"
  shows "unat (q - 1) = unat q - 1"
proof -
  from assms have "1 \<le> q" by (simp add: word_le_nat_alt)
  then show ?thesis by (simp add: unat_sub)
qed

lemma sub_sub_u8: "(32::uint8) - (32 - q) = q"
  by simp

lemma eb32_top:
  assumes "4 \<le> (q::uint8)" "q \<le> 16"
  shows "eb32 x 32 (32 - q) = drop_bit (32 - unat q) x"
proof -
  from p_range_unat [OF assms] have r: "4 \<le> unat q" "unat q \<le> 16" by simp_all
  have m: "push_bit (unat q) (1 :: uint32) - 1 = mask (unat q)"
    by (simp add: mask_eq_exp_minus_1 push_bit_eq_mult)
  have d: "drop_bit (32 - unat q) (x AND push_bit (32 - unat q) (mask (unat q))) = drop_bit (32 - unat q) x"
  proof (rule bit_word_eqI)
    fix n assume "n < LENGTH(32)"
    then show "bit (drop_bit (32 - unat q) (x AND push_bit (32 - unat q) (mask (unat q)))) n
             = bit (drop_bit (32 - unat q) x) n"
      using r by (auto simp: bit_simps dest: bit_imp_le_length)
  qed
  have "eb32 x 32 (32 - q)
      = drop_bit (32 - unat q) (x AND push_bit (32 - unat q) (push_bit (unat q) 1 - 1))"
    by (simp only: eb32_def Let_def sub_sub_u8 unat_32_minus [OF assms])
  also have "\<dots> = drop_bit (32 - unat q) (x AND push_bit (32 - unat q) (mask (unat q)))"
    by (simp only: m)
  also note d
  finally show ?thesis .
qed

lemma top_bits_less:
  assumes "k \<le> 32"
  shows "unat (drop_bit (32 - k) (x::uint32)) < 2 ^ k"
proof -
  have "unat (drop_bit (32 - k) x) = unat x div 2 ^ (32 - k)"
    unfolding unat_drop_bit_eq by (rule drop_bit_eq_div)
  moreover have "unat x < 2 ^ 32" using unsigned_less [of x] by simp
  moreover have "(2::nat) ^ 32 = 2 ^ k * 2 ^ (32 - k)" using assms by (simp flip: power_add)
  ultimately show ?thesis by (simp add: less_mult_imp_div_less)
qed

lemma push_take: "k \<le> 32 \<Longrightarrow> push_bit k (take_bit (32 - k) x) = push_bit k (x::uint32)"
  by (rule bit_word_eqI) (auto simp: bit_simps)

lemma LeadingZeros32_le: "LeadingZeros32 w \<le> 32"
  by (simp add: LeadingZeros32_def)

lemma clz32_plus1: "clz32 w + 1 = of_nat (LeadingZeros32 w + 1)"
  by (simp add: clz32_def)

lemma unat_clz32_plus1: "unat (clz32 w + 1) = LeadingZeros32 w + 1"
proof -
  have "LeadingZeros32 w + 1 < 256" using LeadingZeros32_le [of w] by simp
  then show ?thesis unfolding clz32_plus1 by (simp only: unat_of_nat_u8)
qed

lemma sentinel_ge:
  assumes "1 \<le> k" "k \<le> 32"
  shows "2 ^ (k - 1) \<le> unat (y OR push_bit (k - 1) (1 :: uint32))"
proof -
  have "push_bit (k - 1) (1 :: uint32) \<le> push_bit (k - 1) 1 OR y" by (rule le_word_or2)
  then have "unat (push_bit (k - 1) (1 :: uint32)) \<le> unat (y OR push_bit (k - 1) 1)"
    by (simp add: word_le_nat_alt or.commute)
  moreover have "unat (push_bit (k - 1) (1 :: uint32)) = 2 ^ (k - 1)"
  proof -
    have lt: "(2::nat) ^ (k - 1) < 2 ^ LENGTH(32)"
      using assms by (intro power_strict_increasing) simp_all
    have "push_bit (k - 1) (1 :: uint32) = of_nat (2 ^ (k - 1))"
      by (simp add: push_bit_eq_mult)
    then have "unat (push_bit (k - 1) (1 :: uint32)) = 2 ^ (k - 1) mod 2 ^ LENGTH(32)"
      by (simp only: unat_of_nat)
    also have "\<dots> = 2 ^ (k - 1)" using lt by (rule mod_less)
    finally show ?thesis .
  qed
  ultimately show ?thesis by simp
qed

lemma LeadingZeros32_sentinel:
  assumes "1 \<le> k" "k \<le> 32"
  shows "LeadingZeros32 (y OR push_bit (k - 1) (1 :: uint32)) \<le> 32 - k"
proof -
  from Len_gt_if [OF sentinel_ge [OF assms, of y]]
  have "k \<le> Len (unat (y OR push_bit (k - 1) (1 :: uint32)))" using assms by linarith
  then show ?thesis by (simp add: LeadingZeros32_def)
qed

lemma Add_eq:
  assumes "well_formed h"
  shows "bucket (unat (p h)) x < length (reg h)"
    and "Add h x = Inr (h\<lparr>reg := (reg h)[bucket (unat (p h)) x :=
                     max (reg h ! bucket (unat (p h)) x) (of_nat (rank (unat (p h)) x))]\<rparr>)"
proof -
  let ?k = "unat (p h)"
  from assms have pr: "4 \<le> p h" "p h \<le> 16" and len: "length (reg h) = 2 ^ ?k"
    by (simp_all add: well_formed_def)
  from p_range_unat [OF pr] have k: "4 \<le> ?k" "?k \<le> 16" by simp_all
  have i: "unat (eb32 x 32 (32 - p h)) = bucket ?k x"
    by (simp only: eb32_top [OF pr] bucket_def)
  show lt: "bucket ?k x < length (reg h)"
    unfolding bucket_def len using k by (intro top_bits_less) simp
  let ?w = "push_bit ?k x OR push_bit (unat (p h - 1)) (1 :: uint32)"
  have w: "?w = push_bit ?k (take_bit (32 - ?k) x) OR push_bit (?k - 1) 1"
    using k by (simp only: unat_minus_1 [OF pr(1)] push_take)
  have z: "clz32 ?w + 1 = of_nat (rank ?k x)"
    by (simp only: rank_def clz32_plus1 w)
  define zb :: uint8 where "zb = of_nat (rank ?k x)"
  define i where "i = bucket ?k x"
  have "Add h x = (if zb > reg h ! i then Inr (h\<lparr>reg := (reg h)[i := zb]\<rparr>) else Inr h)"
    using lt unfolding Add_def Let_def z i zb_def i_def by (simp only: not_le [symmetric] if_False)
  also have "\<dots> = Inr (h\<lparr>reg := (reg h)[i := max (reg h ! i) zb]\<rparr>)"
  proof (cases "zb > reg h ! i")
    case True
    then have "max (reg h ! i) zb = zb" by (intro max_absorb2 less_imp_le)
    with True show ?thesis by simp
  next
    case False
    then have "max (reg h ! i) zb = reg h ! i" by (intro max_absorb1) (simp add: not_less)
    with False show ?thesis by simp
  qed
  finally show "Add h x = Inr (h\<lparr>reg := (reg h)[bucket ?k x :=
                     max (reg h ! bucket ?k x) (of_nat (rank ?k x))]\<rparr>)"
    by (simp only: zb_def i_def)
qed

lemma Add_well_formed:
  assumes "well_formed h" "Add h x = Inr h'"
  shows "well_formed h'" "p h' = p h" "m h' = m h"
  using assms(2) assms(1) unfolding Add_eq(2) [OF assms(1)]
  by (auto simp: well_formed_def)

lemma rank_le:
  assumes "1 \<le> k" "k \<le> 32"
  shows "rank k x \<le> 33 - k"
  using LeadingZeros32_sentinel [OF assms, of "push_bit k (take_bit (32 - k) x)"] assms
  by (simp add: rank_def)

lemma New_eq:
  "4 \<le> q \<Longrightarrow> q \<le> 16 \<Longrightarrow>
   New q = Inr \<lparr>reg = replicate (2 ^ unat q) 0, m = 2 ^ unat q, p = q\<rparr>"
proof -
  assume q: "4 \<le> q" "q \<le> 16"
  from p_range_unat [OF q] have k: "unat q \<le> 16" by simp
  then have lt: "(2::nat) ^ unat q < 2 ^ LENGTH(32)"
    by (intro power_strict_increasing) simp_all
  have pb: "push_bit (unat q) (1 :: uint32) = of_nat (2 ^ unat q)"
    by (simp add: push_bit_eq_mult)
  have "unat (push_bit (unat q) (1 :: uint32)) = 2 ^ unat q mod 2 ^ LENGTH(32)"
    unfolding pb by (simp only: unat_of_nat)
  also have "\<dots> = 2 ^ unat q" using lt by (rule mod_less)
  finally have u: "unat (push_bit (unat q) (1 :: uint32)) = 2 ^ unat q" .
  have "push_bit (unat q) (1 :: uint32) = 2 ^ unat q" by (simp add: push_bit_eq_mult)
  with q u show ?thesis by (simp add: New_def Let_def not_less not_le)
qed

lemma New_well_formed:
  assumes "New q = Inr h"
  shows "well_formed h" "p h = q" "reg h = replicate (2 ^ unat q) 0"
proof -
  from assms have q: "4 \<le> q" "q \<le> 16" by (auto simp: New_def split: if_splits)
  from p_range_unat [OF q] have k: "unat q \<le> 16" by simp
  then have lt: "(2::nat) ^ unat q < 2 ^ LENGTH(32)"
    by (intro power_strict_increasing) simp_all
  have "(2 ^ unat q :: uint32) = of_nat (2 ^ unat q)" by simp
  then have "unat (2 ^ unat q :: uint32) = 2 ^ unat q mod 2 ^ LENGTH(32)"
    by (simp only: unat_of_nat)
  also have "\<dots> = 2 ^ unat q" using lt by (rule mod_less)
  finally have u: "unat (2 ^ unat q :: uint32) = 2 ^ unat q" .
  from assms have h: "h = \<lparr>reg = replicate (2 ^ unat q) 0, m = 2 ^ unat q, p = q\<rparr>"
    by (simp add: New_eq [OF q])
  show "well_formed h" using q u by (simp add: h well_formed_def)
  show "p h = q" by (simp add: h)
  show "reg h = replicate (2 ^ unat q) 0" by (simp add: h)
qed

lemma rank_10fff: "rank 16 0x00010fff = 5" and bucket_10fff: "bucket 16 0x00010fff = 1"
  and rank_2ffff: "rank 16 0x0002ffff = 1" and bucket_2ffff: "bucket 16 0x0002ffff = 2"
  and rank_30000: "rank 16 0x00030000 = 17" and bucket_30000: "bucket 16 0x00030000 = 3"
  and rank_30001: "rank 16 0x00030001 = 16" and bucket_30001: "bucket 16 0x00030001 = 3"
  by (simp_all add: rank_def bucket_def LeadingZeros32_def Len.simps)

lemma Add_examples:
  "\<exists>h0 h1 h2 h3 h4. New 16 = Inr h0
      \<and> Add h0 0x00010fff = Inr h1 \<and> reg h1 ! 1 = 5
      \<and> Add h1 0x0002ffff = Inr h2 \<and> reg h2 ! 2 = 1
      \<and> Add h2 0x00030000 = Inr h3 \<and> reg h3 ! 3 = 17
      \<and> Add h3 0x00030001 = Inr h4 \<and> reg h4 ! 3 = 17"
proof -
  define h0 :: HyperLogLog where "h0 = \<lparr>reg = replicate 65536 0, m = 65536, p = 16\<rparr>"
  define h1 where "h1 = h0\<lparr>reg := (reg h0)[1 := 5]\<rparr>"
  define h2 where "h2 = h1\<lparr>reg := (reg h1)[2 := 1]\<rparr>"
  define h3 where "h3 = h2\<lparr>reg := (reg h2)[3 := 17]\<rparr>"
  have n: "New 16 = Inr h0" by (simp add: New_def h0_def)
  have w0: "well_formed h0" by (simp add: well_formed_def h0_def)
  have w1: "well_formed h1" by (simp add: well_formed_def h0_def h1_def)
  have w2: "well_formed h2" by (simp add: well_formed_def h0_def h1_def h2_def)
  have w3: "well_formed h3" by (simp add: well_formed_def h0_def h1_def h2_def h3_def)
  have p: "unat (p h0) = 16" "unat (p h1) = 16" "unat (p h2) = 16" "unat (p h3) = 16"
    by (simp_all add: h0_def h1_def h2_def h3_def)
  have a1: "Add h0 0x00010fff = Inr h1"
    unfolding Add_eq(2) [OF w0] p rank_10fff bucket_10fff by (simp add: h1_def h0_def)
  have a2: "Add h1 0x0002ffff = Inr h2"
    unfolding Add_eq(2) [OF w1] p rank_2ffff bucket_2ffff by (simp add: h2_def h1_def h0_def)
  have a3: "Add h2 0x00030000 = Inr h3"
    unfolding Add_eq(2) [OF w2] p rank_30000 bucket_30000 by (simp add: h3_def h2_def h1_def h0_def)
  have a4: "Add h3 0x00030001 = Inr h3"
    unfolding Add_eq(2) [OF w3] p rank_30001 bucket_30001 by (simp add: h3_def h2_def h1_def h0_def)
  have r: "reg h1 ! 1 = 5" "reg h2 ! 2 = 1" "reg h3 ! 3 = 17"
    by (simp_all add: h3_def h2_def h1_def h0_def)
  from n a1 a2 a3 a4 r show ?thesis by blast
qed

text \<open>
  Claim C2. On a well-formed sketch of precision \<open>p\<close>, \<^verbatim>\<open>Add\<close> of a hash \<open>x\<close> never
  panics and replaces the register at the bucket index (the top \<open>p\<close> bits of \<open>x\<close>) by
  the maximum of its old value and the rank of \<open>x\<close>; no other register changes. With
  \<open>p = 16\<close>, adding \<open>0x00010fff\<close> sets register 1 to 5, adding \<open>0x0002ffff\<close> sets
  register 2 to 1, and adding \<open>0x00030000\<close> then \<open>0x00030001\<close> leaves register 3 at 17.
\<close>

theorem Add_spec:
  "(well_formed h \<longrightarrow>
      bucket (unat (p h)) x < length (reg h)
      \<and> Add h x = Inr (h\<lparr>reg := (reg h)[bucket (unat (p h)) x :=
                     max (reg h ! bucket (unat (p h)) x) (of_nat (rank (unat (p h)) x))]\<rparr>))
   \<and> (\<exists>h0 h1 h2 h3 h4. New 16 = Inr h0
      \<and> Add h0 0x00010fff = Inr h1 \<and> reg h1 ! 1 = 5
      \<and> Add h1 0x0002ffff = Inr h2 \<and> reg h2 ! 2 = 1
      \<and> Add h2 0x00030000 = Inr h3 \<and> reg h3 ! 3 = 17
      \<and> Add h3 0x00030001 = Inr h4 \<and> reg h4 ! 3 = 17)"
proof (intro conjI impI)
  assume w: "well_formed h"
  show "bucket (unat (p h)) x < length (reg h)" using w by (rule Add_eq(1))
  show "Add h x = Inr (h\<lparr>reg := (reg h)[bucket (unat (p h)) x :=
                     max (reg h ! bucket (unat (p h)) x) (of_nat (rank (unat (p h)) x))]\<rparr>)"
    using w by (rule Add_eq(2))
next
  show "\<exists>h0 h1 h2 h3 h4. New 16 = Inr h0
      \<and> Add h0 0x00010fff = Inr h1 \<and> reg h1 ! 1 = 5
      \<and> Add h1 0x0002ffff = Inr h2 \<and> reg h2 ! 2 = 1
      \<and> Add h2 0x00030000 = Inr h3 \<and> reg h3 ! 3 = 17
      \<and> Add h3 0x00030001 = Inr h4 \<and> reg h4 ! 3 = 17"
    by (fact Add_examples)
qed

lemma rank_1f: "rank 4 0x1fffffff = 1" and bucket_1f: "bucket 4 0x1fffffff = 1"
  by (simp_all add: rank_def bucket_def LeadingZeros32_def Len.simps)

theorem Add_spec_witness:
  "Add \<lparr>reg = [0,0,0,0, 0,0,0,0, 0,0,0,0, 0,0,0,0], m = 16, p = 4\<rparr> 0x1fffffff
     = Inr \<lparr>reg = [0,1,0,0, 0,0,0,0, 0,0,0,0, 0,0,0,0], m = 16, p = 4\<rparr>"
proof -
  let ?h = "\<lparr>reg = [0,0,0,0, 0,0,0,0, 0,0,0,0, 0,0,0,0], m = 16, p = 4 :: uint8\<rparr>"
  have w: "well_formed ?h" by (simp add: well_formed_def)
  have p4: "unat (p ?h) = 4" by simp
  from Add_spec [of ?h "0x1fffffff", THEN conjunct1, rule_format, OF w, THEN conjunct2]
  show ?thesis unfolding p4 rank_1f bucket_1f by simp
qed

section \<open>Register bound\<close>

lemma unat_max: "unat (max a b) = max (unat a) (unat (b::uint8))"
  by (simp add: max_def word_le_nat_alt)

lemma unat_rank:
  assumes "1 \<le> k" "k \<le> 32"
  shows "unat (of_nat (rank k x) :: uint8) = rank k x"
proof -
  from rank_le [OF assms, of x] have "rank k x < 256" by simp
  then show ?thesis by (rule unat_of_nat_u8)
qed

lemma Add_bounded:
  assumes w: "well_formed h" and b: "bounded h"
  shows "\<exists>h'. Add h x = Inr h' \<and> well_formed h' \<and> bounded h' \<and> p h' = p h"
proof -
  let ?k = "unat (p h)"
  from w have pr: "4 \<le> p h" "p h \<le> 16" by (simp_all add: well_formed_def)
  from p_range_unat [OF pr] have k: "1 \<le> ?k" "?k \<le> 32" by simp_all
  define i where "i = bucket ?k x"
  define v :: uint8 where "v = max (reg h ! i) (of_nat (rank ?k x))"
  define h' where "h' = h\<lparr>reg := (reg h)[i := v]\<rparr>"
  have eq: "Add h x = Inr h'" unfolding h'_def v_def i_def using w by (rule Add_eq(2))
  have i: "i < length (reg h)" unfolding i_def using w by (rule Add_eq(1))
  have wf: "well_formed h'" using w by (simp add: well_formed_def h'_def)
  have "unat (reg h ! i) \<le> 33 - ?k" using b i by (simp add: bounded_def)
  moreover have "unat (of_nat (rank ?k x) :: uint8) \<le> 33 - ?k"
    unfolding unat_rank [OF k] using k by (rule rank_le)
  ultimately have v: "unat v \<le> 33 - ?k" by (simp add: v_def unat_max)
  have "unat r \<le> 33 - ?k" if "r \<in> set ((reg h)[i := v])" for r
  proof -
    from that set_update_subset_insert [of "reg h" i v] have "r = v \<or> r \<in> set (reg h)" by auto
    then show ?thesis using v b by (auto simp: bounded_def)
  qed
  then have bd: "bounded h'" by (simp add: bounded_def h'_def)
  have "p h' = p h" by (simp add: h'_def)
  with eq wf bd show ?thesis by blast
qed

lemma Clear_bounded:
  assumes w: "well_formed h"
  shows "well_formed (Clear h) \<and> bounded (Clear h) \<and> p (Clear h) = p h"
  using w by (simp add: well_formed_def bounded_def Clear_def)

lemma Merge_bounded:
  assumes w: "well_formed h" and b: "bounded h" and wo: "well_formed other" and bo: "bounded other"
    and pe: "p h = p other"
  shows "\<exists>h'. Merge h other = Inr h' \<and> well_formed h' \<and> bounded h' \<and> p h' = p h"
proof -
  have len: "length (reg other) = length (reg h)"
    using well_formed_same_length [OF w wo pe] by (rule conjunct1)
  define h' where "h' = h\<lparr>reg := map2 max (reg h) (reg other)\<rparr>"
  have eq: "Merge h other = Inr h'" unfolding h'_def using pe len by (rule Merge_eq)
  have wf: "well_formed h'" using w len by (simp add: well_formed_def h'_def)
  have "unat r \<le> 33 - unat (p h)" if "r \<in> set (map2 max (reg h) (reg other))" for r
  proof -
    from that obtain a c where "r = max a c" "a \<in> set (reg h)" "c \<in> set (reg other)"
      by (auto dest: set_zip_leftD set_zip_rightD)
    then show ?thesis using b bo pe by (auto simp: bounded_def unat_max)
  qed
  then have bd: "bounded h'" by (simp add: bounded_def h'_def)
  have "p h' = p h" by (simp add: h'_def)
  with eq wf bd show ?thesis by blast
qed

lemma run_invariant:
  assumes "well_formed h" "bounded h"
    and "\<forall>other. OpMerge other \<in> set ops \<longrightarrow> well_formed other \<and> bounded other"
  shows "\<exists>h'. run h ops = Inr h' \<and> well_formed h' \<and> bounded h' \<and> p h' = p h"
  using assms
proof (induction ops arbitrary: h)
  case Nil
  then show ?case by simp
next
  case (Cons a as)
  from Cons.prems(3) have rest: "\<forall>other. OpMerge other \<in> set as \<longrightarrow> well_formed other \<and> bounded other"
    by simp
  have step: "\<exists>h1. run h (a # as) = run h1 as \<and> well_formed h1 \<and> bounded h1 \<and> p h1 = p h"
  proof (cases a)
    case (OpAdd x)
    from Add_bounded [OF Cons.prems(1,2), of x] obtain h1
      where "Add h x = Inr h1" "well_formed h1" "bounded h1" "p h1 = p h" by (elim exE conjE)
    with OpAdd show ?thesis by (intro exI [of _ h1]) simp
  next
    case OpClear
    with Clear_bounded [OF Cons.prems(1)] show ?thesis by (intro exI [of _ "Clear h"]) simp
  next
    case (OpMerge other)
    with Cons.prems(3) have o: "well_formed other" "bounded other" by simp_all
    show ?thesis
    proof (cases "p h = p other")
      case True
      from Merge_bounded [OF Cons.prems(1,2) o True] obtain h1
        where "Merge h other = Inr h1" "well_formed h1" "bounded h1" "p h1 = p h"
        by (elim exE conjE)
      with OpMerge show ?thesis by (intro exI [of _ h1]) simp
    next
      case False
      then have "Merge h other = Inl ErrPrecisionMismatch" by (simp add: Merge_def)
      with OpMerge Cons.prems(1,2) show ?thesis by (intro exI [of _ h]) simp
    qed
  qed
  then obtain h1 where h1: "run h (a # as) = run h1 as" "well_formed h1" "bounded h1" "p h1 = p h"
    by (elim exE conjE)
  from Cons.IH [OF h1(2,3) rest] h1(1,4) show ?case by simp
qed

text \<open>
  Claim C10. Starting from \<^verbatim>\<open>New(q)\<close>, any sequence of \<^verbatim>\<open>Add\<close>, \<^verbatim>\<open>Clear\<close> and
  \<^verbatim>\<open>Merge\<close> calls, where each merged-in sketch is well-formed and within the bound
  for its own precision, runs without a panic and every register of the result is at most
  \<open>33 - q\<close>. The sentinel bit bounds the leading-zero count by \<open>32 - q\<close>, so a rank is at
  most \<open>33 - q\<close> and fits a \<^verbatim>\<open>uint8\<close> without wrapping; the bound is below 33.
\<close>

theorem registers_bounded:
  assumes "New q = Inr h0"
    and "\<forall>other. OpMerge other \<in> set ops \<longrightarrow> well_formed other \<and> bounded other"
  shows "(\<exists>h. run h0 ops = Inr h \<and> p h = q \<and> (\<forall>r \<in> set (reg h). unat r \<le> 33 - unat q))
       \<and> (\<forall>x. LeadingZeros32 (push_bit (unat q) x OR push_bit (unat q - 1) 1) \<le> 32 - unat q
              \<and> rank (unat q) x \<le> 33 - unat q
              \<and> unat (of_nat (rank (unat q) x) :: uint8) = rank (unat q) x)
       \<and> 33 - unat q < 33"
proof -
  from New_well_formed [OF assms(1)]
  have w: "well_formed h0" and p: "p h0 = q" and r: "reg h0 = replicate (2 ^ unat q) 0" .
  from r have b: "bounded h0" by (simp add: bounded_def)
  from w p have pr: "4 \<le> q" "q \<le> 16" by (auto simp: well_formed_def)
  from p_range_unat [OF pr] have k: "1 \<le> unat q" "unat q \<le> 32" by simp_all
  from run_invariant [OF w b assms(2)] obtain h
    where h: "run h0 ops = Inr h" "bounded h" "p h = p h0" by (elim exE conjE)
  from h(2,3) p have "\<forall>r \<in> set (reg h). unat r \<le> 33 - unat q" by (simp add: bounded_def)
  with h(1,3) p have 1: "\<exists>h. run h0 ops = Inr h \<and> p h = q \<and> (\<forall>r \<in> set (reg h). unat r \<le> 33 - unat q)"
    by (intro exI [of _ h]) simp
  have 2: "LeadingZeros32 (push_bit (unat q) x OR push_bit (unat q - 1) 1) \<le> 32 - unat q
         \<and> rank (unat q) x \<le> 33 - unat q
         \<and> unat (of_nat (rank (unat q) x) :: uint8) = rank (unat q) x" for x
    using LeadingZeros32_sentinel [OF k] rank_le [OF k] unat_rank [OF k] by simp
  have 3: "33 - unat q < 33" using p_range_unat [OF pr] by simp
  from 1 2 3 show ?thesis by (simp only: simp_thms)
qed

theorem registers_bounded_witness:
  "\<exists>h. run \<lparr>reg = replicate 16 0, m = 16, p = 4\<rparr>
          [OpAdd 0x00ffffff, OpMerge \<lparr>reg = replicate 16 29, m = 16, p = 4\<rparr>, OpClear, OpAdd 0x1fffffff]
        = Inr h \<and> p h = 4 \<and> (\<forall>r \<in> set (reg h). unat r \<le> 29)"
proof -
  let ?o = "\<lparr>reg = replicate 16 29, m = 16, p = 4 :: uint8\<rparr>"
  have n: "New 4 = Inr \<lparr>reg = replicate 16 0, m = 16, p = 4\<rparr>" by (simp add: New_def)
  have o: "well_formed ?o \<and> bounded ?o" by (simp add: well_formed_def bounded_def)
  have "\<forall>other. OpMerge other \<in> set [OpAdd 0x00ffffff, OpMerge ?o, OpClear, OpAdd 0x1fffffff]
          \<longrightarrow> well_formed other \<and> bounded other"
    using o by simp
  from registers_bounded [OF n this, THEN conjunct1] show ?thesis by simp
qed

section \<open>Merge on register buffers in memory\<close>

lemma merge_mem_step:
  "i < len os \<Longrightarrow> i < len hs \<Longrightarrow>
   merge_mem M hs os i =
     merge_mem (if M (base os + i) > M (base hs + i) then M(base hs + i := M (base os + i)) else M)
       hs os (Suc i)"
  by (subst merge_mem.simps) (simp add: Let_def)

lemma merge_mem_done: "\<not> i < len os \<Longrightarrow> merge_mem M hs os i = Inr M"
  by (subst merge_mem.simps) simp

lemma merge_mem_panic: "i < len os \<Longrightarrow> len hs \<le> i \<Longrightarrow> merge_mem M hs os i = Inl PanicIndexOutOfRange"
  by (subst merge_mem.simps) (simp add: Let_def)

lemma overlap_run: "Merge_mem overlap_mem overlap_h overlap_other
   = Inr (overlap_mem(8 := 5, 9 := 5, 10 := 5, 11 := 5, 12 := 5, 13 := 5, 14 := 5, 15 := 5,
            16 := 5, 17 := 5, 18 := 5, 19 := 5, 20 := 5, 21 := 5, 22 := 5, 23 := 5))"
  by (simp add: Merge_mem_def overlap_h_def overlap_other_def merge_mem_step merge_mem_done overlap_mem_def)

lemma upd_if_max:
  "(if v > M x then M(x := v) else M) = M(x := max (M x) (v :: uint8))"
proof (cases "v > M x")
  case True
  then have "max (M x) v = v" by (intro max_absorb2 less_imp_le)
  with True show ?thesis by simp
next
  case False
  then have "max (M x) v = M x" by (intro max_absorb1) (simp add: not_less)
  with False show ?thesis by simp
qed

lemma merge_mem_same: "merge_mem M s s i = Inr M"
proof (induction "len s - i" arbitrary: i)
  case 0
  then have "\<not> i < len s" by simp
  then show ?case by (rule merge_mem_done)
next
  case (Suc n)
  then have i: "i < len s" and n: "n = len s - Suc i" by simp_all
  have "merge_mem M s s i = merge_mem M s s (Suc i)"
    using merge_mem_step [OF i i, of M] by simp
  also have "\<dots> = Inr M" using n by (rule Suc.hyps(1))
  finally show ?case .
qed

lemma merge_mem_disjoint:
  assumes le: "len os \<le> len hs"
    and disj: "\<forall>a < len hs. \<forall>b < len os. base hs + a \<noteq> base os + b"
  shows "\<exists>M'. merge_mem M hs os i = Inr M' \<and>
           (\<forall>a. M' a = (if \<exists>j. i \<le> j \<and> j < len os \<and> a = base hs + j
                         then max (M a) (M (base os + (a - base hs))) else M a))"
proof (induction "len os - i" arbitrary: i M)
  case 0
  then have fin: "\<not> i < len os" by simp
  have "merge_mem M hs os i = Inr M" using fin by (rule merge_mem_done)
  moreover have "\<not> (\<exists>j. i \<le> j \<and> j < len os \<and> a = base hs + j)" for a using fin by auto
  ultimately show ?case by (intro exI [of _ M]) (simp only: simp_thms if_False)
next
  case (Suc n)
  then have i: "i < len os" and n: "n = len os - Suc i" by simp_all
  from i le have ih: "i < len hs" by simp
  define M1 where "M1 = M(base hs + i := max (M (base hs + i)) (M (base os + i)))"
  have step: "merge_mem M hs os i = merge_mem M1 hs os (Suc i)"
    unfolding M1_def merge_mem_step [OF i ih] upd_if_max ..
  from Suc.hyps(1) [OF n, of M1] obtain M'
    where r: "merge_mem M1 hs os (Suc i) = Inr M'"
      and v: "\<forall>a. M' a = (if \<exists>j. Suc i \<le> j \<and> j < len os \<and> a = base hs + j
                         then max (M1 a) (M1 (base os + (a - base hs))) else M1 a)"
    by (elim exE conjE)
  have "M' a = (if \<exists>j. i \<le> j \<and> j < len os \<and> a = base hs + j
                then max (M a) (M (base os + (a - base hs))) else M a)" for a
  proof (cases "\<exists>j. Suc i \<le> j \<and> j < len os \<and> a = base hs + j")
    case True
    then obtain j where j: "Suc i \<le> j" "j < len os" "a = base hs + j" by blast
    from j have ne: "a \<noteq> base hs + i" by simp
    from j(2) ih disj have ne2: "base os + j \<noteq> base hs + i" by (metis)
    have "M' a = max (M1 a) (M1 (base os + (a - base hs)))"
      using v [rule_format, of a] True by (simp only: if_True)
    also have "\<dots> = max (M a) (M (base os + (a - base hs)))"
      using ne ne2 j(3) by (simp add: M1_def)
    finally have e: "M' a = max (M a) (M (base os + (a - base hs)))" .
    have ex: "\<exists>j. i \<le> j \<and> j < len os \<and> a = base hs + j"
      using j by (intro exI [of _ j]) simp
    from e ex show ?thesis by (simp only: if_True)
  next
    case False
    have m: "M' a = M1 a" using v [rule_format, of a] False by (simp only: if_False)
    show ?thesis
    proof (cases "a = base hs + i")
      case True
      have ex: "\<exists>j. i \<le> j \<and> j < len os \<and> a = base hs + j"
        using True i by (intro exI [of _ i]) simp
      have "M1 a = max (M a) (M (base os + (a - base hs)))" using True by (simp add: M1_def)
      with m ex show ?thesis by (simp only: if_True)
    next
      case F2: False
      have nex: "\<not> (\<exists>j. i \<le> j \<and> j < len os \<and> a = base hs + j)"
      proof
        assume "\<exists>j. i \<le> j \<and> j < len os \<and> a = base hs + j"
        then obtain j where j: "i \<le> j" "j < len os" "a = base hs + j" by blast
        with F2 have "Suc i \<le> j" by (cases "j = i") auto
        with j False show False by blast
      qed
      have "M1 a = M a" using F2 by (simp add: M1_def)
      with m nex show ?thesis by (simp only: if_False)
    qed
  qed
  with step r show ?case by simp
qed

lemma load_simps:
  "p (load M r) = rp r" "m (load M r) = rm r" "length (reg (load M r)) = len (buf r)"
  "i < len (buf r) \<Longrightarrow> reg (load M r) ! i = M (base (buf r) + i)"
  by (simp_all add: load_def)

lemma load_cong:
  "(\<And>i. i < len (buf r) \<Longrightarrow> M' (base (buf r) + i) = M (base (buf r) + i)) \<Longrightarrow> load M' r = load M r"
  by (simp add: load_def)

lemma Merge_mem_ok:
  assumes wh: "well_formed (load M h)" and wo: "well_formed (load M other)"
    and sep: "separate (buf h) (buf other)" and pe: "rp h = rp other"
  shows "\<exists>M'. Merge_mem M h other = Inr M'
           \<and> (\<forall>i < len (buf h). M' (base (buf h) + i)
                  = max (M (base (buf h) + i)) (M (base (buf other) + i)))
           \<and> load M' other = load M other
           \<and> (\<forall>a. (\<nexists>i. i < len (buf h) \<and> a = base (buf h) + i) \<longrightarrow> M' a = M a)"
proof -
  have p': "p (load M h) = p (load M other)" using pe by (simp add: load_simps)
  have "length (reg (load M other)) = length (reg (load M h))"
    using well_formed_same_length [OF wh wo p'] by (rule conjunct1)
  then have len: "len (buf other) = len (buf h)" by (simp add: load_simps)
  have run: "Merge_mem M h other = merge_mem M (buf h) (buf other) 0"
    using pe by (simp add: Merge_mem_def)
  show ?thesis
  proof (cases "buf h = buf other")
    case True
    have "Merge_mem M h other = Inr M" unfolding run True by (rule merge_mem_same)
    then show ?thesis using True by (intro exI [of _ M]) simp
  next
    case False
    with sep have "base (buf h) + len (buf h) \<le> base (buf other)
        \<or> base (buf other) + len (buf other) \<le> base (buf h)"
      by (simp add: separate_def)
    then have disj: "\<forall>a < len (buf h). \<forall>b < len (buf other). base (buf h) + a \<noteq> base (buf other) + b"
      by auto
    from len have le: "len (buf other) \<le> len (buf h)" by simp
    from merge_mem_disjoint [OF le disj, of M 0] obtain M'
      where r: "merge_mem M (buf h) (buf other) 0 = Inr M'"
        and v: "\<forall>a. M' a = (if \<exists>j. 0 \<le> j \<and> j < len (buf other) \<and> a = base (buf h) + j
                  then max (M a) (M (base (buf other) + (a - base (buf h)))) else M a)"
      by (elim exE conjE)
    have 1: "M' (base (buf h) + i) = max (M (base (buf h) + i)) (M (base (buf other) + i))"
      if "i < len (buf h)" for i
    proof -
      have "\<exists>j. 0 \<le> j \<and> j < len (buf other) \<and> base (buf h) + i = base (buf h) + j"
        using that len by (intro exI [of _ i]) simp
      with v [rule_format, of "base (buf h) + i"] show ?thesis by simp
    qed
    have 3: "M' a = M a" if "\<nexists>i. i < len (buf h) \<and> a = base (buf h) + i" for a
    proof -
      from that len have "\<not> (\<exists>j. 0 \<le> j \<and> j < len (buf other) \<and> a = base (buf h) + j)" by simp
      with v [rule_format, of a] show ?thesis by (simp only: if_False)
    qed
    have 2: "load M' other = load M other"
    proof (rule load_cong)
      fix i assume i: "i < len (buf other)"
      have "\<nexists>k. k < len (buf h) \<and> base (buf other) + i = base (buf h) + k"
        using disj i by (metis)
      then show "M' (base (buf other) + i) = M (base (buf other) + i)" by (rule 3)
    qed
    from r 1 2 3 show ?thesis unfolding run by blast
  qed
qed

lemma Merge_mem_value:
  assumes wh: "well_formed (load M h)" and wo: "well_formed (load M other)"
    and sep: "separate (buf h) (buf other)" and pe: "rp h = rp other"
    and run: "Merge_mem M h other = Inr M'"
  shows "Merge (load M h) (load M other) = Inr (load M' h)"
proof -
  have p': "p (load M h) = p (load M other)" using pe by (simp add: load_simps)
  have len': "length (reg (load M other)) = length (reg (load M h))"
    using well_formed_same_length [OF wh wo p'] by (rule conjunct1)
  then have len: "len (buf other) = len (buf h)" by (simp add: load_simps)
  from Merge_mem_ok [OF wh wo sep pe] run
  have v: "\<forall>i < len (buf h). M' (base (buf h) + i)
                  = max (M (base (buf h) + i)) (M (base (buf other) + i))"
    by auto
  have "reg (load M' h) = map2 max (reg (load M h)) (reg (load M other))"
  proof (rule nth_equalityI)
    show "length (reg (load M' h)) = length (map2 max (reg (load M h)) (reg (load M other)))"
      using len by (simp add: load_simps)
  next
    fix i assume "i < length (reg (load M' h))"
    then have i: "i < len (buf h)" by (simp add: load_simps)
    with v len show "reg (load M' h) ! i = map2 max (reg (load M h)) (reg (load M other)) ! i"
      by (simp add: load_simps)
  qed
  then have "load M' h = (load M h)\<lparr>reg := map2 max (reg (load M h)) (reg (load M other))\<rparr>"
    by (simp add: load_def)
  then show ?thesis by (simp only: Merge_eq [OF p' len'])
qed

text \<open>
  Claim C3, as amended. For well-formed sketches \<open>h\<close> and \<open>other\<close> whose register
  buffers are the same window or do not overlap, \<^verbatim>\<open>h.Merge(other)\<close> returns an error
  exactly when the precisions differ, and the error is the precision error. When the
  precisions are equal it succeeds, every register of \<open>h\<close> becomes the maximum of the two
  old registers at that index, \<open>other\<close> reads as before, and no byte outside the buffer of
  \<open>h\<close> changes.
\<close>

theorem Merge_spec:
  assumes "well_formed (load M h)" and "well_formed (load M other)"
    and "separate (buf h) (buf other)"
  shows "((\<exists>e. Merge_mem M h other = Inl e) \<longleftrightarrow> rp h \<noteq> rp other)
       \<and> (rp h \<noteq> rp other \<longrightarrow> Merge_mem M h other = Inl ErrPrecisionMismatch)
       \<and> (rp h = rp other \<longrightarrow>
            (\<exists>M'. Merge_mem M h other = Inr M'
               \<and> (\<forall>i < len (buf h). reg (load M' h) ! i
                      = max (reg (load M h) ! i) (reg (load M other) ! i))
               \<and> load M' other = load M other
               \<and> (\<forall>a. (\<nexists>i. i < len (buf h) \<and> a = base (buf h) + i) \<longrightarrow> M' a = M a)))"
proof (cases "rp h = rp other")
  case True
  have p': "p (load M h) = p (load M other)" using True by (simp add: load_simps)
  have "length (reg (load M other)) = length (reg (load M h))"
    using well_formed_same_length [OF assms(1,2) p'] by (rule conjunct1)
  then have len: "len (buf other) = len (buf h)" by (simp add: load_simps)
  from Merge_mem_ok [OF assms True] obtain M'
    where r: "Merge_mem M h other = Inr M'"
      and f1: "\<forall>i < len (buf h). M' (base (buf h) + i)
                  = max (M (base (buf h) + i)) (M (base (buf other) + i))"
      and f2: "load M' other = load M other"
      and f3: "\<forall>a. (\<nexists>i. i < len (buf h) \<and> a = base (buf h) + i) \<longrightarrow> M' a = M a"
    by (elim exE conjE)
  have g1: "\<forall>i < len (buf h). reg (load M' h) ! i = max (reg (load M h) ! i) (reg (load M other) ! i)"
    using f1 len by (simp add: load_simps)
  have no_err: "\<not> (\<exists>e. Merge_mem M h other = Inl e)" by (simp add: r)
  from r g1 f2 f3 have "\<exists>M'. Merge_mem M h other = Inr M'
               \<and> (\<forall>i < len (buf h). reg (load M' h) ! i
                      = max (reg (load M h) ! i) (reg (load M other) ! i))
               \<and> load M' other = load M other
               \<and> (\<forall>a. (\<nexists>i. i < len (buf h) \<and> a = base (buf h) + i) \<longrightarrow> M' a = M a)"
    by (intro exI [of _ M'] conjI)
  with True no_err show ?thesis by (simp only: simp_thms)
next
  case False
  then have "Merge_mem M h other = Inl ErrPrecisionMismatch" by (simp add: Merge_mem_def)
  with False show ?thesis by simp
qed

lemma apart_facts:
  "well_formed (load apart_mem apart_h)" "well_formed (load apart_mem apart_other)"
  "separate (buf apart_h) (buf apart_other)" "separate (buf apart_h) (buf apart_h)"
  "rp apart_h = rp apart_other"
  by (simp_all add: well_formed_def load_def apart_h_def apart_other_def separate_def)

theorem Merge_spec_witness:
  "(\<exists>M'. Merge_mem apart_mem apart_h apart_other = Inr M'
        \<and> reg (load M' apart_h) ! 0 = 3 \<and> reg (load M' apart_h) ! 1 = 2
        \<and> load M' apart_other = load apart_mem apart_other)
   \<and> (\<exists>M'. Merge_mem apart_mem apart_h apart_h = Inr M' \<and> reg (load M' apart_h) ! 0 = 3)
   \<and> Merge_mem apart_mem apart_h (apart_other\<lparr>buf := \<lparr>base = 16, len = 32\<rparr>, rm := 32, rp := 5\<rparr>)
       = Inl ErrPrecisionMismatch"
proof -
  from Merge_spec [OF apart_facts(1,2,3), THEN conjunct2, THEN conjunct2, rule_format, OF apart_facts(5)]
  obtain M' where r: "Merge_mem apart_mem apart_h apart_other = Inr M'"
    and v: "\<forall>i < len (buf apart_h). reg (load M' apart_h) ! i
                = max (reg (load apart_mem apart_h) ! i) (reg (load apart_mem apart_other) ! i)"
    and o: "load M' apart_other = load apart_mem apart_other"
    by (elim exE conjE)
  have "reg (load M' apart_h) ! 0 = 3" "reg (load M' apart_h) ! 1 = 2"
    using v [rule_format, of 0] v [rule_format, of 1]
    by (simp_all add: load_simps apart_h_def apart_other_def apart_mem_def)
  with r o have a: "\<exists>M'. Merge_mem apart_mem apart_h apart_other = Inr M'
        \<and> reg (load M' apart_h) ! 0 = 3 \<and> reg (load M' apart_h) ! 1 = 2
        \<and> load M' apart_other = load apart_mem apart_other" by blast
  from Merge_spec [OF apart_facts(1,1,4), THEN conjunct2, THEN conjunct2, rule_format, OF refl]
  obtain M2 where r2: "Merge_mem apart_mem apart_h apart_h = Inr M2"
    and v2: "\<forall>i < len (buf apart_h). reg (load M2 apart_h) ! i
                = max (reg (load apart_mem apart_h) ! i) (reg (load apart_mem apart_h) ! i)"
    by (elim exE conjE)
  have "reg (load M2 apart_h) ! 0 = 3"
    using v2 [rule_format, of 0] by (simp add: load_simps apart_h_def apart_mem_def)
  with r2 have b: "\<exists>M'. Merge_mem apart_mem apart_h apart_h = Inr M' \<and> reg (load M' apart_h) ! 0 = 3"
    by blast
  let ?o5 = "apart_other\<lparr>buf := \<lparr>base = 16, len = 32\<rparr>, rm := 32, rp := 5\<rparr>"
  have w5: "well_formed (load apart_mem ?o5)" "separate (buf apart_h) (buf ?o5)"
    "rp apart_h \<noteq> rp ?o5"
    by (simp_all add: well_formed_def load_def apart_h_def apart_other_def separate_def)
  from Merge_spec [OF apart_facts(1) w5(1,2), THEN conjunct2, THEN conjunct1, rule_format, OF w5(3)]
  have c: "Merge_mem apart_mem apart_h ?o5 = Inl ErrPrecisionMismatch" .
  from a b c show ?thesis by (intro conjI)
qed

text \<open>
  Claim C3 as stated fails for two sketches that \<^verbatim>\<open>NewReg\<close> built on overlapping windows
  of one array: \<^verbatim>\<open>Merge\<close> succeeds, but register 8 of \<open>h\<close> ends at 5 where the maximum
  of the two old registers is 0, because the loop reads a register of \<open>other\<close> that it has
  already written through \<open>h\<close>; and register 8 of \<open>other\<close> has changed from 0 to 5.
\<close>

theorem Merge_overlap_counterexample:
  "well_formed (load overlap_mem overlap_h) \<and> well_formed (load overlap_mem overlap_other)
   \<and> rp overlap_h = rp overlap_other
   \<and> \<not> isl (Merge_mem overlap_mem overlap_h overlap_other)
   \<and> reg (load (projr (Merge_mem overlap_mem overlap_h overlap_other)) overlap_h) ! 8 = 5
   \<and> max (reg (load overlap_mem overlap_h) ! 8) (reg (load overlap_mem overlap_other) ! 8) = 0
   \<and> reg (load (projr (Merge_mem overlap_mem overlap_h overlap_other)) overlap_other) ! 8 = 5
   \<and> reg (load overlap_mem overlap_other) ! 8 = 0"
proof -
  have w: "well_formed (load overlap_mem overlap_h)" "well_formed (load overlap_mem overlap_other)"
    "rp overlap_h = rp overlap_other"
    by (simp_all add: well_formed_def load_def overlap_h_def overlap_other_def)
  have l: "len (buf overlap_h) = 16" "base (buf overlap_h) = 8"
    "len (buf overlap_other) = 16" "base (buf overlap_other) = 0"
    by (simp_all add: overlap_h_def overlap_other_def)
  have i: "(8::nat) < len (buf overlap_h)" "(8::nat) < len (buf overlap_other)" by (simp_all add: l)
  show ?thesis
    unfolding overlap_run load_simps(4) [OF i(1)] load_simps(4) [OF i(2)] l
    using w by (simp add: overlap_mem_def)
qed

section \<open>Merge as a semilattice join\<close>

lemma well_formed_load: "well_formed (load M' r) \<longleftrightarrow> well_formed (load M r)"
  by (simp add: well_formed_def load_def)

lemma Merge_mem_frame:
  assumes f3: "\<forall>a. (\<nexists>i. i < len (buf h) \<and> a = base (buf h) + i) \<longrightarrow> M' a = M a"
    and sep: "separate (buf z) (buf h)" and ne: "buf z \<noteq> buf h" and i: "i < len (buf z)"
  shows "M' (base (buf z) + i) = M (base (buf z) + i)"
proof -
  from sep ne have "base (buf z) + len (buf z) \<le> base (buf h)
      \<or> base (buf h) + len (buf h) \<le> base (buf z)"
    by (simp add: separate_def)
  with i have "\<nexists>j. j < len (buf h) \<and> base (buf z) + i = base (buf h) + j" by auto
  then show ?thesis by (rule f3 [rule_format])
qed

lemma Merge_mem_cell:
  assumes wh: "well_formed (load M h)" and wo: "well_formed (load M other)"
    and wz: "well_formed (load M z)"
    and sep: "separate (buf h) (buf other)" and pe: "rp h = rp other"
    and sz: "separate (buf z) (buf h)" and pz: "rp z = rp h"
  shows "\<exists>M'. Merge_mem M h other = Inr M'
           \<and> (\<forall>i < len (buf h). M' (base (buf h) + i)
                  = max (M (base (buf h) + i)) (M (base (buf other) + i)))
           \<and> (\<forall>i < len (buf h). M' (base (buf z) + i)
                  = (if buf z = buf h then max (M (base (buf h) + i)) (M (base (buf other) + i))
                     else M (base (buf z) + i)))"
proof -
  have "p (load M z) = p (load M h)" using pz by (simp add: load_simps)
  from well_formed_same_length [OF wz wh this]
  have "length (reg (load M h)) = length (reg (load M z))" by (rule conjunct1)
  then have lz: "len (buf z) = len (buf h)" by (simp add: load_simps)
  from Merge_mem_ok [OF wh wo sep pe] obtain M'
    where r: "Merge_mem M h other = Inr M'"
      and f1: "\<forall>i < len (buf h). M' (base (buf h) + i)
                  = max (M (base (buf h) + i)) (M (base (buf other) + i))"
      and f3: "\<forall>a. (\<nexists>i. i < len (buf h) \<and> a = base (buf h) + i) \<longrightarrow> M' a = M a"
    by (elim exE conjE)
  have f4: "M' (base (buf z) + i)
        = (if buf z = buf h then max (M (base (buf h) + i)) (M (base (buf other) + i))
           else M (base (buf z) + i))" if i: "i < len (buf h)" for i
  proof (cases "buf z = buf h")
    case True
    with f1 i show ?thesis by simp
  next
    case False
    from i lz have "i < len (buf z)" by simp
    from Merge_mem_frame [OF f3 sz False this] False show ?thesis by simp
  qed
  from f4 have f4': "\<forall>i < len (buf h). M' (base (buf z) + i)
        = (if buf z = buf h then max (M (base (buf h) + i)) (M (base (buf other) + i))
           else M (base (buf z) + i))" by simp
  from r f1 f4' show ?thesis by (intro exI [of _ M'] conjI)
qed

lemma Merge_mem_noop:
  assumes wh: "well_formed (load M h)" and wo: "well_formed (load M other)"
    and sep: "separate (buf h) (buf other)" and pe: "rp h = rp other"
    and dom: "\<forall>i < len (buf h). M (base (buf other) + i) \<le> M (base (buf h) + i)"
  shows "Merge_mem M h other = Inr M"
proof -
  from Merge_mem_ok [OF wh wo sep pe] obtain M'
    where r: "Merge_mem M h other = Inr M'"
      and f1: "\<forall>i < len (buf h). M' (base (buf h) + i)
                  = max (M (base (buf h) + i)) (M (base (buf other) + i))"
      and f3: "\<forall>a. (\<nexists>i. i < len (buf h) \<and> a = base (buf h) + i) \<longrightarrow> M' a = M a"
    by (elim exE conjE)
  have "M' a = M a" for a
  proof (cases "\<exists>i. i < len (buf h) \<and> a = base (buf h) + i")
    case True
    then obtain i where i: "i < len (buf h)" and a: "a = base (buf h) + i" by (elim exE conjE)
    from dom i have "max (M (base (buf h) + i)) (M (base (buf other) + i)) = M (base (buf h) + i)"
      by (intro max_absorb1) simp
    with f1 i a show ?thesis by simp
  next
    case False
    with f3 show ?thesis by simp
  qed
  then have "M' = M" by (intro ext)
  with r show ?thesis by simp
qed

text \<open>
  Claim C4, as amended. On well-formed sketches of one precision whose register buffers
  are pairwise the same window or do not overlap, \<^verbatim>\<open>Merge\<close> is commutative on register
  vectors (\<^verbatim>\<open>A.Merge(B)\<close> leaves in \<open>A\<close> the registers that \<^verbatim>\<open>B.Merge(A)\<close> leaves in
  \<open>B\<close>), associative (\<^verbatim>\<open>A.Merge(B)\<close> followed by \<^verbatim>\<open>A.Merge(C)\<close> and \<^verbatim>\<open>B.Merge(C)\<close>
  followed by \<^verbatim>\<open>A.Merge(B)\<close> leave the same registers in \<open>A\<close>), idempotent
  (\<^verbatim>\<open>A.Merge(A)\<close> changes no byte), and changes no byte when every register of the other
  sketch is at most the receiver's register at the same index.
\<close>

theorem Merge_algebra:
  assumes wa: "well_formed (load M A)" and wb: "well_formed (load M B)"
    and wc: "well_formed (load M C)"
    and pab: "rp A = rp B" and pbc: "rp B = rp C"
    and sab: "separate (buf A) (buf B)" and sbc: "separate (buf B) (buf C)"
    and sac: "separate (buf A) (buf C)"
  shows "\<exists>M_AB M_BA M_BC M_AB_C M_A_BC.
           Merge_mem M A B = Inr M_AB \<and> Merge_mem M B A = Inr M_BA
         \<and> reg (load M_AB A) = reg (load M_BA B)
         \<and> Merge_mem M B C = Inr M_BC \<and> Merge_mem M_AB A C = Inr M_AB_C
         \<and> Merge_mem M_BC A B = Inr M_A_BC
         \<and> reg (load M_AB_C A) = reg (load M_A_BC A)
         \<and> Merge_mem M A A = Inr M
         \<and> ((\<forall>i < len (buf A). reg (load M B) ! i \<le> reg (load M A) ! i)
              \<longrightarrow> Merge_mem M A B = Inr M)"
proof -
  have sba: "separate (buf B) (buf A)" and sca: "separate (buf C) (buf A)"
    and scb: "separate (buf C) (buf B)" and saa: "separate (buf A) (buf A)"
    using sab sbc sac by (auto simp: separate_def)
  have pac: "rp A = rp C" using pab pbc by simp
  have "p (load M A) = p (load M B)" using pab by (simp add: load_simps)
  from well_formed_same_length [OF wa wb this]
  have "length (reg (load M B)) = length (reg (load M A))" by (rule conjunct1)
  then have lb: "len (buf B) = len (buf A)" by (simp add: load_simps)
  have "p (load M B) = p (load M C)" using pbc by (simp add: load_simps)
  from well_formed_same_length [OF wb wc this]
  have "length (reg (load M C)) = length (reg (load M B))" by (rule conjunct1)
  then have lc: "len (buf C) = len (buf A)" using lb by (simp add: load_simps)
  have same_ab: "M (base (buf A) + i) = M (base (buf B) + i)" if "buf A = buf B" for i
    using that by simp
  have same_ac: "M (base (buf C) + i) = M (base (buf A) + i)" if "buf C = buf A" for i
    using that by simp
  \<comment> \<open>A.Merge(B) and its effect on the cells of A and of C\<close>
  from Merge_mem_cell [OF wa wb wc sab pab sca pac [symmetric]] obtain M_AB
    where ab: "Merge_mem M A B = Inr M_AB"
      and ab1: "\<forall>i < len (buf A). M_AB (base (buf A) + i)
                  = max (M (base (buf A) + i)) (M (base (buf B) + i))"
      and ab2: "\<forall>i < len (buf A). M_AB (base (buf C) + i)
                  = (if buf C = buf A then max (M (base (buf A) + i)) (M (base (buf B) + i))
                     else M (base (buf C) + i))"
    by (elim exE conjE)
  \<comment> \<open>B.Merge(A)\<close>
  from Merge_mem_ok [OF wb wa sba pab [symmetric]] obtain M_BA
    where ba: "Merge_mem M B A = Inr M_BA"
      and ba1: "\<forall>i < len (buf B). M_BA (base (buf B) + i)
                  = max (M (base (buf B) + i)) (M (base (buf A) + i))"
    by (elim exE conjE)
  have comm: "reg (load M_AB A) = reg (load M_BA B)"
  proof (rule nth_equalityI)
    show "length (reg (load M_AB A)) = length (reg (load M_BA B))" using lb by (simp add: load_simps)
  next
    fix i assume "i < length (reg (load M_AB A))"
    then have i: "i < len (buf A)" by (simp add: load_simps)
    with lb have i': "i < len (buf B)" by simp
    show "reg (load M_AB A) ! i = reg (load M_BA B) ! i"
      unfolding load_simps(4) [OF i] load_simps(4) [OF i']
      using ab1 [rule_format, OF i] ba1 [rule_format, OF i'] by (simp add: max.commute)
  qed
  \<comment> \<open>B.Merge(C) and its effect on the cells of B and of A\<close>
  from Merge_mem_cell [OF wb wc wa sbc pbc sab pab] obtain M_BC
    where bc: "Merge_mem M B C = Inr M_BC"
      and bc1: "\<forall>i < len (buf B). M_BC (base (buf B) + i)
                  = max (M (base (buf B) + i)) (M (base (buf C) + i))"
      and bc2: "\<forall>i < len (buf B). M_BC (base (buf A) + i)
                  = (if buf A = buf B then max (M (base (buf B) + i)) (M (base (buf C) + i))
                     else M (base (buf A) + i))"
    by (elim exE conjE)
  \<comment> \<open>(A.Merge(B)).Merge(C)\<close>
  have wa1: "well_formed (load M_AB A)" and wc1: "well_formed (load M_AB C)"
    using wa wc by (simp_all only: well_formed_load [of M_AB _ M])
  from Merge_mem_ok [OF wa1 wc1 sac pac] obtain M_AB_C
    where abc: "Merge_mem M_AB A C = Inr M_AB_C"
      and abc1: "\<forall>i < len (buf A). M_AB_C (base (buf A) + i)
                  = max (M_AB (base (buf A) + i)) (M_AB (base (buf C) + i))"
    by (elim exE conjE)
  \<comment> \<open>A.Merge(B.Merge(C))\<close>
  have wa2: "well_formed (load M_BC A)" and wb2: "well_formed (load M_BC B)"
    using wa wb by (simp_all only: well_formed_load [of M_BC _ M])
  from Merge_mem_ok [OF wa2 wb2 sab pab] obtain M_A_BC
    where a_bc: "Merge_mem M_BC A B = Inr M_A_BC"
      and a_bc1: "\<forall>i < len (buf A). M_A_BC (base (buf A) + i)
                  = max (M_BC (base (buf A) + i)) (M_BC (base (buf B) + i))"
    by (elim exE conjE)
  have assoc: "reg (load M_AB_C A) = reg (load M_A_BC A)"
  proof (rule nth_equalityI)
    show "length (reg (load M_AB_C A)) = length (reg (load M_A_BC A))" by (simp add: load_simps)
  next
    fix i assume "i < length (reg (load M_AB_C A))"
    then have i: "i < len (buf A)" by (simp add: load_simps)
    with lb have i': "i < len (buf B)" by simp
    define a b c where "a = M (base (buf A) + i)" and "b = M (base (buf B) + i)"
      and "c = M (base (buf C) + i)"
    have l: "M_AB_C (base (buf A) + i) = max (max a b) c"
    proof (cases "buf C = buf A")
      case True
      then have "c = a" by (simp add: a_def c_def)
      with abc1 [rule_format, OF i] ab1 [rule_format, OF i] ab2 [rule_format, OF i] True
      show ?thesis by (simp add: a_def b_def max.assoc max.commute max.left_commute)
    next
      case False
      with abc1 [rule_format, OF i] ab1 [rule_format, OF i] ab2 [rule_format, OF i]
      show ?thesis by (simp add: a_def b_def c_def)
    qed
    have r: "M_A_BC (base (buf A) + i) = max a (max b c)"
    proof (cases "buf A = buf B")
      case True
      then have "a = b" by (simp add: a_def b_def)
      with a_bc1 [rule_format, OF i] bc1 [rule_format, OF i'] bc2 [rule_format, OF i'] True
      show ?thesis by (simp add: b_def c_def max.assoc [symmetric])
    next
      case False
      with a_bc1 [rule_format, OF i] bc1 [rule_format, OF i'] bc2 [rule_format, OF i']
      show ?thesis by (simp add: a_def b_def c_def)
    qed
    show "reg (load M_AB_C A) ! i = reg (load M_A_BC A) ! i"
      unfolding load_simps(4) [OF i] l r by (rule max.assoc)
  qed
  have idem: "Merge_mem M A A = Inr M"
    using wa wa saa refl by (rule Merge_mem_noop) simp
  have noop: "Merge_mem M A B = Inr M"
    if d: "\<forall>i < len (buf A). reg (load M B) ! i \<le> reg (load M A) ! i"
  proof -
    have "\<forall>i < len (buf A). M (base (buf B) + i) \<le> M (base (buf A) + i)"
    proof (intro allI impI)
      fix i assume i: "i < len (buf A)"
      with lb have i': "i < len (buf B)" by simp
      from d i have "reg (load M B) ! i \<le> reg (load M A) ! i" by simp
      then show "M (base (buf B) + i) \<le> M (base (buf A) + i)"
        by (simp only: load_simps(4) [OF i] load_simps(4) [OF i'])
    qed
    with wa wb sab pab show ?thesis by (rule Merge_mem_noop)
  qed
  from ab ba comm bc abc a_bc assoc idem noop show ?thesis
    by (intro exI [of _ M_AB] exI [of _ M_BA] exI [of _ M_BC] exI [of _ M_AB_C]
        exI [of _ M_A_BC] conjI impI)
qed

lemma apart_run: "Merge_mem apart_mem apart_h apart_other = Inr (apart_mem(1 := 2))"
  by (simp add: Merge_mem_def apart_h_def apart_other_def merge_mem_step merge_mem_done apart_mem_def)

lemma overlap_run_rev: "Merge_mem overlap_mem overlap_other overlap_h = Inr overlap_mem"
  by (simp add: Merge_mem_def overlap_h_def overlap_other_def merge_mem_step merge_mem_done overlap_mem_def)

theorem Merge_algebra_witness:
  "\<exists>M_AB M_BA M_BC M_AB_C M_A_BC.
      Merge_mem apart_mem apart_h apart_third = Inr M_AB
    \<and> Merge_mem apart_mem apart_third apart_h = Inr M_BA
    \<and> reg (load M_AB apart_h) = reg (load M_BA apart_third)
    \<and> Merge_mem apart_mem apart_third apart_other = Inr M_BC
    \<and> Merge_mem M_AB apart_h apart_other = Inr M_AB_C
    \<and> Merge_mem M_BC apart_h apart_third = Inr M_A_BC
    \<and> reg (load M_AB_C apart_h) = reg (load M_A_BC apart_h)
    \<and> reg (load M_A_BC apart_h) ! 0 = 3 \<and> reg (load M_A_BC apart_h) ! 1 = 2
    \<and> Merge_mem apart_mem apart_h apart_h = Inr apart_mem
    \<and> Merge_mem apart_mem apart_h apart_third = Inr apart_mem"
proof -
  have w: "well_formed (load apart_mem apart_h)" "well_formed (load apart_mem apart_third)"
    "well_formed (load apart_mem apart_other)"
    by (simp_all add: well_formed_def load_def apart_h_def apart_other_def apart_third_def)
  have q: "rp apart_h = rp apart_third" "rp apart_third = rp apart_other"
    by (simp_all add: apart_h_def apart_other_def apart_third_def)
  have s: "separate (buf apart_h) (buf apart_third)" "separate (buf apart_third) (buf apart_other)"
    "separate (buf apart_h) (buf apart_other)"
    by (simp_all add: separate_def apart_h_def apart_other_def apart_third_def)
  have d: "\<forall>i < len (buf apart_h). reg (load apart_mem apart_third) ! i \<le> reg (load apart_mem apart_h) ! i"
    by (simp add: load_def apart_h_def apart_third_def apart_mem_def)
  from Merge_algebra [OF w q s] obtain M_AB M_BA M_BC M_AB_C M_A_BC
    where f: "Merge_mem apart_mem apart_h apart_third = Inr M_AB"
      "Merge_mem apart_mem apart_third apart_h = Inr M_BA"
      "reg (load M_AB apart_h) = reg (load M_BA apart_third)"
      "Merge_mem apart_mem apart_third apart_other = Inr M_BC"
      "Merge_mem M_AB apart_h apart_other = Inr M_AB_C"
      "Merge_mem M_BC apart_h apart_third = Inr M_A_BC"
      "reg (load M_AB_C apart_h) = reg (load M_A_BC apart_h)"
      "Merge_mem apart_mem apart_h apart_h = Inr apart_mem"
      and g: "(\<forall>i < len (buf apart_h). reg (load apart_mem apart_third) ! i \<le> reg (load apart_mem apart_h) ! i)
              \<longrightarrow> Merge_mem apart_mem apart_h apart_third = Inr apart_mem"
    by (elim exE conjE)
  from g d have n: "Merge_mem apart_mem apart_h apart_third = Inr apart_mem" by (rule mp)
  with f(1) have "M_AB = apart_mem" by simp
  with f(5) apart_run have "M_AB_C = apart_mem(1 := 2)" by simp
  then have "reg (load M_AB_C apart_h) ! 0 = 3" "reg (load M_AB_C apart_h) ! 1 = 2"
    by (simp_all add: load_def apart_h_def apart_mem_def)
  then have v: "reg (load M_A_BC apart_h) ! 0 = 3" "reg (load M_A_BC apart_h) ! 1 = 2"
    by (simp_all only: f(7))
  from f v n show ?thesis
    by (intro exI [of _ M_AB] exI [of _ M_BA] exI [of _ M_BC] exI [of _ M_AB_C]
        exI [of _ M_A_BC] conjI)
qed

text \<open>
  Claim C4 as stated fails for two sketches that \<^verbatim>\<open>NewReg\<close> built on overlapping windows
  of one array, \<^verbatim>\<open>a[8:24]\<close> and \<^verbatim>\<open>a[0:16]\<close>, both well-formed and of precision 4:
  \<^verbatim>\<open>h.Merge(other)\<close> leaves 5 in register 8 of \<open>h\<close>, while \<^verbatim>\<open>other.Merge(h)\<close>, run on
  the same memory, leaves 0 in register 8 of \<open>other\<close>. The two merges do not yield the
  same register vector.
\<close>

theorem Merge_commute_counterexample:
  "well_formed (load overlap_mem overlap_h) \<and> well_formed (load overlap_mem overlap_other)
   \<and> rp overlap_h = rp overlap_other
   \<and> \<not> isl (Merge_mem overlap_mem overlap_h overlap_other)
   \<and> \<not> isl (Merge_mem overlap_mem overlap_other overlap_h)
   \<and> reg (load (projr (Merge_mem overlap_mem overlap_h overlap_other)) overlap_h) ! 8 = 5
   \<and> reg (load (projr (Merge_mem overlap_mem overlap_other overlap_h)) overlap_other) ! 8 = 0"
proof -
  have w: "well_formed (load overlap_mem overlap_h)" "well_formed (load overlap_mem overlap_other)"
    "rp overlap_h = rp overlap_other"
    by (simp_all add: well_formed_def load_def overlap_h_def overlap_other_def)
  have l: "len (buf overlap_h) = 16" "base (buf overlap_h) = 8"
    "len (buf overlap_other) = 16" "base (buf overlap_other) = 0"
    by (simp_all add: overlap_h_def overlap_other_def)
  have i: "(8::nat) < len (buf overlap_h)" "(8::nat) < len (buf overlap_other)" by (simp_all add: l)
  show ?thesis
    unfolding overlap_run overlap_run_rev load_simps(4) [OF i(1)] load_simps(4) [OF i(2)] l
    using w by (simp add: overlap_mem_def)
qed

section \<open>Rounding to float64\<close>

lemma bit_length_pos: "0 < n \<Longrightarrow> bit_length n = bit_length (n div 2) + 1"
  by (subst bit_length.simps) simp

lemma bit_length_nonpos: "n \<le> 0 \<Longrightarrow> bit_length n = 0"
  by (subst bit_length.simps) simp

lemma bit_length_bounds:
  "0 < n \<Longrightarrow> 0 < bit_length n \<and> 2 ^ nat (bit_length n - 1) \<le> n \<and> n < 2 ^ nat (bit_length n)"
proof (induction n rule: bit_length.induct)
  case (1 n)
  from 1(2) have pos: "\<not> n \<le> 0" by simp
  show ?case
  proof (cases "n = 1")
    case True
    then have "bit_length n = 1" by (simp add: bit_length_pos bit_length_nonpos)
    with True show ?thesis by simp
  next
    case False
    with 1(2) have h: "0 < n div 2" by simp
    define b where "b = bit_length (n div 2)"
    from 1(1) [OF pos h]
    have IH: "0 < b" "2 ^ nat (b - 1) \<le> n div 2" "n div 2 < 2 ^ nat b"
      by (simp_all add: b_def)
    have bl: "bit_length n = b + 1" using 1(2) by (simp add: bit_length_pos b_def)
    from IH(1) have nb: "nat b = Suc (nat (b - 1))" by simp
    have "(2::int) ^ nat b = 2 * 2 ^ nat (b - 1)" by (subst nb) simp
    also have "\<dots> \<le> 2 * (n div 2)" using IH(2) by simp
    also have "\<dots> \<le> n" by simp
    finally have lo: "2 ^ nat b \<le> n" .
    from IH(3) have "n div 2 + 1 \<le> 2 ^ nat b" by simp
    then have "2 * (n div 2) + 2 \<le> 2 * 2 ^ nat b" by simp
    moreover have "n < 2 * (n div 2) + 2" by simp
    ultimately have hi: "n < 2 * 2 ^ nat b" by simp
    from IH(1) have nb1: "nat (b + 1) = Suc (nat b)" by simp
    from IH(1) lo hi show ?thesis unfolding bl nb1 by simp
  qed
qed

lemma powi_nonneg: "0 \<le> k \<Longrightarrow> (2::real) powi k = 2 ^ nat k"
  by (simp add: power_int_def)

lemma powi_less_cancel: "(2::real) powi a < 2 powi b \<Longrightarrow> a < b"
proof (rule ccontr)
  assume lt: "(2::real) powi a < 2 powi b" and "\<not> a < b"
  then have "b \<le> a" by simp
  then have "(2::real) powi b \<le> 2 powi a" by (intro power_int_increasing) simp_all
  with lt show False by simp
qed

lemma powi_Suc: "(2::real) powi (k + 1) = 2 * 2 powi k"
  by (simp add: power_int_add)

lemma bit_length_powi:
  assumes "0 < n"
  shows "2 powi (bit_length n - 1) \<le> real_of_int n" "real_of_int n + 1 \<le> 2 powi (bit_length n)"
proof -
  from bit_length_bounds [OF assms]
  have b: "0 < bit_length n" and lo: "2 ^ nat (bit_length n - 1) \<le> n"
    and hi: "n < 2 ^ nat (bit_length n)" by simp_all
  from lo have "real_of_int (2 ^ nat (bit_length n - 1)) \<le> real_of_int n" by (simp only: of_int_le_iff)
  then show "2 powi (bit_length n - 1) \<le> real_of_int n" using b by (simp add: powi_nonneg)
  from hi have "n + 1 \<le> 2 ^ nat (bit_length n)" by simp
  then have "real_of_int (n + 1) \<le> real_of_int (2 ^ nat (bit_length n))" by (simp only: of_int_le_iff)
  then show "real_of_int n + 1 \<le> 2 powi (bit_length n)" using b by (simp add: powi_nonneg)
qed

lemma expo_bounds:
  assumes "0 < x"
  shows "2 powi (expo x) \<le> x" "x < 2 powi (expo x + 1)"
proof -
  have "2 powi (expo x) \<le> x \<and> x < 2 powi (expo x + 1)"
  proof (cases "1 \<le> x")
    case True
    define N where "N = \<lfloor>x\<rfloor>"
    from True have N: "0 < N" by (simp add: N_def)
    have e: "expo x = bit_length N - 1" using True by (simp add: expo_def N_def)
    have "real_of_int N \<le> x" "x < real_of_int N + 1" by (simp_all add: N_def)
    with bit_length_powi [OF N] show ?thesis unfolding e by simp
  next
    case False
    define N where "N = \<lceil>1 / x\<rceil> - 1"
    from False assms have "1 < 1 / x" by simp
    then have "1 < \<lceil>1 / x\<rceil>" by (simp add: less_ceiling_iff)
    then have N: "0 < N" by (simp add: N_def)
    have e: "expo x = - bit_length N" using False by (simp add: expo_def N_def)
    have c: "real_of_int N < 1 / x" "1 / x \<le> real_of_int N + 1"
      unfolding N_def by linarith+
    from bit_length_powi [OF N] c
    have lo: "2 powi (bit_length N - 1) < 1 / x" and hi: "1 / x \<le> 2 powi (bit_length N)"
      by simp_all
    have p: "0 < (2::real) powi (bit_length N)" "0 < (2::real) powi (bit_length N - 1)" by simp_all
    from hi assms p(1) have "1 / 2 powi (bit_length N) \<le> x"
      by (simp add: field_simps)
    then have 1: "2 powi (- bit_length N) \<le> x" by (simp add: power_int_minus_divide)
    from lo assms p(2) have "x < 1 / 2 powi (bit_length N - 1)"
      by (simp add: field_simps)
    also have "\<dots> = 2 powi (- (bit_length N - 1))" by (simp only: power_int_minus_divide)
    finally have 2: "x < 2 powi (- bit_length N + 1)" by simp
    from 1 2 show ?thesis unfolding e by simp
  qed
  then show "2 powi (expo x) \<le> x" "x < 2 powi (expo x + 1)" by simp_all
qed


lemma rne_close: "\<bar>real_of_int (rne t) - t\<bar> \<le> 1 / 2"
proof -
  have "real_of_int \<lfloor>t\<rfloor> \<le> t" "t < real_of_int \<lfloor>t\<rfloor> + 1" by simp_all
  then show ?thesis unfolding rne_def Let_def by (auto simp: abs_le_iff) 
qed

lemma rne_of_int: "rne (real_of_int n) = n"
  by (simp add: rne_def)

lemma rnd_0: "rnd 0 = Fin 0"
  by (simp add: rnd_def)

lemma powi_split: "(2::real) powi a = 2 powi (a - b) * 2 powi b"
  using power_int_add [of "2::real" "a - b" b] by simp

lemma rnd_exact:
  assumes x: "x = real_of_int n * 2 powi q" and n: "\<bar>n\<bar> < 2 ^ 53" and q: "- 1074 \<le> q"
    and big: "\<bar>x\<bar> < 2 ^ 1024"
  shows "rnd x = Fin x"
proof (cases "x = 0")
  case True
  then show ?thesis by (simp add: rnd_0)
next
  case False
  then have pos: "0 < \<bar>x\<bar>" by simp
  define e where "e = expo \<bar>x\<bar>"
  define q' where "q' = max (e - 52) (- 1074)"
  have "2 powi e \<le> \<bar>x\<bar>" unfolding e_def using pos by (rule expo_bounds)
  also have "\<bar>x\<bar> = real_of_int \<bar>n\<bar> * 2 powi q" by (simp add: x abs_mult)
  also have "\<dots> < 2 ^ 53 * 2 powi q"
  proof (rule mult_strict_right_mono)
    from n have "real_of_int \<bar>n\<bar> < real_of_int (2 ^ 53)" by (simp only: of_int_less_iff)
    then show "real_of_int \<bar>n\<bar> < 2 ^ 53" by simp
  qed simp
  also have "\<dots> = 2 powi (53 + q)" by (simp add: power_int_add)
  finally have "e < 53 + q" by (rule powi_less_cancel)
  with q have le: "q' \<le> q" by (simp add: q'_def)
  define k where "k = nat (q - q')"
  have "(2::real) powi q = 2 powi (q - q') * 2 powi q'" by (rule powi_split)
  also have "(2::real) powi (q - q') = 2 ^ k" using le by (simp add: powi_nonneg k_def)
  finally have pq: "(2::real) powi q = 2 ^ k * 2 powi q'" .
  have "x / 2 powi q' = real_of_int n * 2 ^ k" by (simp add: x pq)
  also have "\<dots> = real_of_int (n * 2 ^ k)" by simp
  finally have t: "x / 2 powi q' = real_of_int (n * 2 ^ k)" .
  have "real_of_int (rne (x / 2 powi q')) * 2 powi q' = real_of_int (n * 2 ^ k) * 2 powi q'"
    by (simp only: t rne_of_int)
  also have "\<dots> = x" by (simp add: x pq)
  finally have y: "real_of_int (rne (x / 2 powi q')) * 2 powi q' = x" .
  from big have "\<not> 2 ^ 1024 \<le> x" "\<not> x \<le> - (2 ^ 1024)" by (simp_all add: abs_less_iff)
  with False show ?thesis
    unfolding rnd_def Let_def e_def [symmetric] q'_def [symmetric] y by (simp only: if_False)
qed

lemma rnd_of_nat:
  assumes "n < 2 ^ 53"
  shows "rnd (real n) = Fin (real n)"
proof (rule rnd_exact [where n = "int n" and q = 0])
  show "real n = real_of_int (int n) * 2 powi 0" by simp
  from assms show "\<bar>int n\<bar> < 2 ^ 53" by simp
  from assms have "real n < 2 ^ 53" by (metis of_nat_less_iff of_nat_numeral of_nat_power)
  then show "\<bar>real n\<bar> < 2 ^ 1024" by simp
qed simp

text \<open>Rounding a positive number of the normal range moves it by at most \<open>2 ^ - 53\<close> of itself.\<close>

lemma rnd_rel:
  assumes lo: "2 powi (- 1022) \<le> x" and hi: "x \<le> 2 ^ 1023"
  shows "\<exists>y. rnd x = Fin y \<and> \<bar>y - x\<bar> \<le> x / 2 ^ 53"
proof -
  have "0 < (2::real) powi (- 1022)" by simp
  with lo have pos: "0 < x" by linarith
  define e where "e = expo x"
  define q where "q = e - 52"
  have b: "2 powi e \<le> x" "x < 2 powi (e + 1)" unfolding e_def using pos by (rule expo_bounds)+
  from lo b(2) have "(2::real) powi (- 1022) < 2 powi (e + 1)" by simp
  then have "- 1022 < e + 1" by (rule powi_less_cancel)
  then have mx: "max (e - 52) (- 1074) = q" by (simp add: q_def)
  define r where "r = rne (x / 2 powi q)"
  define y where "y = real_of_int r * 2 powi q"
  have pq: "0 < (2::real) powi q" by simp
  have "\<bar>y - x\<bar> = \<bar>real_of_int r - x / 2 powi q\<bar> * 2 powi q"
  proof -
    have "y - x = (real_of_int r - x / 2 powi q) * 2 powi q" using pq by (simp add: y_def field_simps)
    then show ?thesis using pq by (simp add: abs_mult)
  qed
  also have "\<dots> \<le> 1 / 2 * 2 powi q"
    unfolding r_def using rne_close [of "x / 2 powi q"] pq by (intro mult_right_mono) simp_all
  also have "\<dots> = 2 powi e / 2 ^ 53"
  proof -
    have "(2::real) powi e = 2 powi 52 * 2 powi q" unfolding q_def using powi_split [of e "e - 52"] by simp
    then show ?thesis by simp
  qed
  also have "\<dots> \<le> x / 2 ^ 53" using b(1) by (simp add: divide_right_mono)
  finally have err: "\<bar>y - x\<bar> \<le> x / 2 ^ 53" .
  define d where "d = x / 2 ^ 53"
  have d: "0 < d" "d < x" using pos by (simp_all add: d_def)
  from err have "\<bar>y - x\<bar> \<le> d" by (simp only: d_def)
  with d have "y < 2 * x" "0 < y" by linarith+
  with hi have "y < 2 ^ 1024" "0 < y" by simp_all
  then have "\<not> 2 ^ 1024 \<le> y" "\<not> y \<le> - (2 ^ 1024)" by simp_all
  with pos have "rnd x = Fin y"
    unfolding rnd_def Let_def by (simp add: e_def [symmetric] mx r_def y_def)
  with err show ?thesis by (intro exI [of _ y] conjI)
qed



section \<open>Rounding errors\<close>

lemma u_bounds: "0 < 1 - 1 / (2::real) ^ 53" "1 - 1 / (2::real) ^ 53 \<le> 1"
  by simp_all

lemma upow_bounds: "0 < (1 - 1 / (2::real) ^ 53) ^ k" "(1 - 1 / (2::real) ^ 53) ^ k \<le> 1"
proof -
  show "0 < (1 - 1 / (2::real) ^ 53) ^ k" using u_bounds(1) by (rule zero_less_power)
  show "(1 - 1 / (2::real) ^ 53) ^ k \<le> 1" using u_bounds by (intro power_le_one) simp_all
qed

lemma near_refl: "0 \<le> x \<Longrightarrow> near 0 x x"
  by (simp add: near_def)

lemma near_nonneg:
  assumes "near k x y"
  shows "0 \<le> y"
proof -
  from assms have "0 \<le> x" "x * (1 - 1 / 2 ^ 53) ^ k \<le> y" by (simp_all add: near_def)
  moreover from this(1) upow_bounds(1) [of k] have "0 \<le> x * (1 - 1 / 2 ^ 53) ^ k" by simp
  ultimately show ?thesis by linarith
qed

lemma near_pos:
  assumes "near k x y" and "0 < x"
  shows "0 < y"
proof -
  from assms have "x * (1 - 1 / 2 ^ 53) ^ k \<le> y" by (simp add: near_def)
  moreover from assms(2) upow_bounds(1) [of k] have "0 < x * (1 - 1 / 2 ^ 53) ^ k" by simp
  ultimately show ?thesis by linarith
qed

lemma near_mono:
  assumes n: "near j x y" and le: "j \<le> k"
  shows "near k x y"
proof -
  define c where "c = (1 - 1 / (2::real) ^ 53)"
  from n have x: "0 \<le> x" and lo: "x * c ^ j \<le> y" and hi: "y * c ^ j \<le> x"
    by (simp_all add: near_def c_def)
  have y: "0 \<le> y" using n by (rule near_nonneg)
  have c: "0 \<le> c" "c \<le> 1" by (simp_all add: c_def)
  have p: "c ^ k \<le> c ^ j" using le c by (intro power_decreasing)
  have "x * c ^ k \<le> x * c ^ j" using p x by (rule mult_left_mono)
  with lo have 1: "x * c ^ k \<le> y" by linarith
  have "y * c ^ k \<le> y * c ^ j" using p y by (rule mult_left_mono)
  with hi have 2: "y * c ^ k \<le> x" by linarith
  from x 1 2 show ?thesis by (simp add: near_def c_def)
qed

lemma near_add:
  assumes "near k a a'" and "near k b b'"
  shows "near k (a + b) (a' + b')"
  using assms by (simp add: near_def distrib_right)

lemma near_mult:
  assumes a: "near j a a'" and b: "near k b b'"
  shows "near (j + k) (a * b) (a' * b')"
proof -
  define c where "c = (1 - 1 / (2::real) ^ 53)"
  have cj: "0 \<le> c ^ j" and ck: "0 \<le> c ^ k" by (simp_all add: c_def)
  from a have a0: "0 \<le> a" and alo: "a * c ^ j \<le> a'" and ahi: "a' * c ^ j \<le> a"
    by (simp_all add: near_def c_def)
  from b have b0: "0 \<le> b" and blo: "b * c ^ k \<le> b'" and bhi: "b' * c ^ k \<le> b"
    by (simp_all add: near_def c_def)
  have a'0: "0 \<le> a'" using a by (rule near_nonneg)
  have b'0: "0 \<le> b'" using b by (rule near_nonneg)
  have "(a * c ^ j) * (b * c ^ k) \<le> a' * b'"
    using alo blo by (rule mult_mono) (use a0 b0 cj ck a'0 in simp_all)
  then have 1: "a * b * c ^ (j + k) \<le> a' * b'" by (simp add: power_add mult_ac)
  have "(a' * c ^ j) * (b' * c ^ k) \<le> a * b"
    using ahi bhi by (rule mult_mono) (use a0 b'0 ck in simp_all)
  then have 2: "a' * b' * c ^ (j + k) \<le> a * b" by (simp add: power_add mult_ac)
  from a0 b0 1 2 show ?thesis by (simp add: near_def c_def)
qed

lemma near_div:
  assumes a: "near j a a'" and b: "near k b b'" and bpos: "0 < b"
  shows "near (j + k) (a / b) (a' / b')"
proof -
  define c where "c = (1 - 1 / (2::real) ^ 53)"
  have cj: "0 \<le> c ^ j" and ck: "0 \<le> c ^ k" by (simp_all add: c_def)
  from a have a0: "0 \<le> a" and alo: "a * c ^ j \<le> a'" and ahi: "a' * c ^ j \<le> a"
    by (simp_all add: near_def c_def)
  from b have blo: "b * c ^ k \<le> b'" and bhi: "b' * c ^ k \<le> b"
    by (simp_all add: near_def c_def)
  have a'0: "0 \<le> a'" using a by (rule near_nonneg)
  have b'pos: "0 < b'" using b bpos by (rule near_pos)
  have "(a * c ^ j) * (b' * c ^ k) \<le> a' * b"
    using alo bhi by (rule mult_mono) (use a0 b'pos cj ck a'0 in simp_all)
  then have "a * c ^ (j + k) * b' \<le> a' * b" by (simp add: power_add mult_ac)
  then have 1: "a / b * c ^ (j + k) \<le> a' / b'"
    using bpos b'pos by (simp add: field_simps)
  have "(a' * c ^ j) * (b * c ^ k) \<le> a * b'"
    using ahi blo by (rule mult_mono) (use a0 bpos ck in simp_all)
  then have "a' * c ^ (j + k) * b \<le> a * b'" by (simp add: power_add mult_ac)
  then have 2: "a' / b' * c ^ (j + k) \<le> a / b"
    using bpos b'pos by (simp add: field_simps)
  from a0 bpos 1 2 show ?thesis by (simp add: near_def c_def)
qed

text \<open>Up to \<open>2 ^ 52\<close> roundings keep a value within a factor 2.\<close>

lemma upow_half:
  assumes "k \<le> 2 ^ 52"
  shows "1 - real k / 2 ^ 53 \<le> (1 - 1 / (2::real) ^ 53) ^ k" "1 / 2 \<le> (1 - 1 / (2::real) ^ 53) ^ k"
proof -
  have "1 + real k * (- (1 / 2 ^ 53)) \<le> (1 + - (1 / (2::real) ^ 53)) ^ k"
    by (rule Bernoulli_inequality) simp
  then show 1: "1 - real k / 2 ^ 53 \<le> (1 - 1 / (2::real) ^ 53) ^ k" by simp
  from assms have "real k \<le> 2 ^ 52" by (metis of_nat_le_iff of_nat_numeral of_nat_power)
  then have "real k / 2 ^ 53 \<le> 1 / 2" by simp
  with 1 show "1 / 2 \<le> (1 - 1 / (2::real) ^ 53) ^ k" by linarith
qed

lemma near_range:
  assumes n: "near k x y" and k: "k \<le> 2 ^ 52"
  shows "x / 2 \<le> y" "y \<le> 2 * x"
proof -
  define c where "c = (1 - 1 / (2::real) ^ 53) ^ k"
  from n have x: "0 \<le> x" and lo: "x * c \<le> y" and hi: "y * c \<le> x"
    by (simp_all add: near_def c_def)
  have y: "0 \<le> y" using n by (rule near_nonneg)
  have c: "1 / 2 \<le> c" unfolding c_def using k by (rule upow_half)
  have "x * (1 / 2) \<le> x * c" using c x by (rule mult_left_mono)
  with lo show "x / 2 \<le> y" by simp
  have "y * (1 / 2) \<le> y * c" using c y by (rule mult_left_mono)
  with hi show "y \<le> 2 * x" by simp
qed


lemma near_rnd:
  assumes n: "near k x x'" and lo: "2 powi (- 1022) \<le> x'" and hi: "x' \<le> 2 ^ 1023"
  shows "\<exists>y. rnd x' = Fin y \<and> near (Suc k) x y"
proof -
  define c where "c = 1 - 1 / (2::real) ^ 53"
  have c: "0 < c" "c \<le> 1" by (simp_all add: c_def)
  have ck: "0 \<le> c ^ k" using c by simp
  from n have x: "0 \<le> x" and nlo: "x * c ^ k \<le> x'" and nhi: "x' * c ^ k \<le> x"
    by (simp_all add: near_def c_def)
  have "0 < (2::real) powi (- 1022)" by simp
  with lo have x'pos: "0 < x'" by linarith
  from rnd_rel [OF lo hi] obtain y where r: "rnd x' = Fin y" and e: "\<bar>y - x'\<bar> \<le> x' / 2 ^ 53"
    by (elim exE conjE)
  define d where "d = x' / 2 ^ 53"
  have xc: "x' * c = x' - d" "x' * (1 + 1 / 2 ^ 53) = x' + d"
    by (simp_all add: c_def d_def algebra_simps)
  from e have "\<bar>y - x'\<bar> \<le> d" by (simp only: d_def)
  then have ylo: "x' * c \<le> y" and yhi: "y \<le> x' * (1 + 1 / 2 ^ 53)"
    unfolding xc by linarith+
  have "x * c ^ Suc k = (x * c ^ k) * c" by simp
  also have "\<dots> \<le> x' * c" using nlo c(1) by (intro mult_right_mono) simp_all
  also have "\<dots> \<le> y" by (rule ylo)
  finally have 1: "x * c ^ Suc k \<le> y" .
  have "(1 + 1 / 2 ^ 53) * c \<le> (1::real)" by (simp add: c_def algebra_simps)
  then have "x' * ((1 + 1 / 2 ^ 53) * c) \<le> x' * 1" using x'pos by (intro mult_left_mono) simp_all
  then have s: "x' * (1 + 1 / 2 ^ 53) * c \<le> x'" by (simp add: mult.assoc)
  have "y * c \<le> x' * (1 + 1 / 2 ^ 53) * c" using yhi c(1) by (intro mult_right_mono) simp_all
  with s have yc: "y * c \<le> x'" by linarith
  have "y * c ^ Suc k = (y * c) * c ^ k" by simp
  also have "\<dots> \<le> x' * c ^ k" using yc ck by (rule mult_right_mono)
  also have "\<dots> \<le> x" by (rule nhi)
  finally have 2: "y * c ^ Suc k \<le> x" .
  from x 1 2 have "near (Suc k) x y" by (simp only: near_def c_def simp_thms)
  with r show ?thesis by (intro exI [of _ y] conjI)
qed

text \<open>The same, with the range read off the exact value.\<close>

lemma near_rnd_exact:
  assumes n: "near k x x'" and k: "k \<le> 2 ^ 52" and lo: "1 / 2 ^ 1000 \<le> x" and hi: "x \<le> 2 ^ 1000"
  shows "\<exists>y. rnd x' = Fin y \<and> near (Suc k) x y"
proof -
  from near_range [OF n k] have r: "x / 2 \<le> x'" "x' \<le> 2 * x" .
  have "(2::real) powi (- 1022) \<le> (1 / 2 ^ 1000) / 2"
    by (simp add: power_int_minus_divide)
  also have "\<dots> \<le> x / 2" using lo by simp
  finally have 1: "2 powi (- 1022) \<le> x'" using r(1) by linarith
  have "2 * x \<le> 2 * 2 ^ 1000" using hi by simp
  also have "\<dots> \<le> (2::real) ^ 1023" by simp
  finally have 2: "x' \<le> 2 ^ 1023" using r(2) by linarith
  from n 1 2 show ?thesis by (rule near_rnd)
qed

section \<open>The estimate\<close>

lemma unat_2p_u64:
  assumes "k < 64"
  shows "unat (2 ^ k :: uint64) = 2 ^ k"
proof -
  have lt: "(2::nat) ^ k < 2 ^ LENGTH(64)"
    using assms by (intro power_strict_increasing) simp_all
  have "(2 ^ k :: uint64) = of_nat (2 ^ k)" by simp
  then have "unat (2 ^ k :: uint64) = 2 ^ k mod 2 ^ LENGTH(64)"
    by (simp only: unat_of_nat)
  also have "\<dots> = 2 ^ k" using lt by (rule mod_less)
  finally show ?thesis .
qed

lemma float_of_u32: "float_of_word (n :: uint32) = Fin (real (unat n))"
proof -
  have "unat n < 2 ^ 32" using unsigned_less [of n] by simp
  also have "\<dots> < (2::nat) ^ 53" by simp
  finally show ?thesis unfolding float_of_word_def by (rule rnd_of_nat)
qed

lemma rnd_pow2:
  assumes "k \<le> 1023"
  shows "rnd (2 ^ k) = Fin (2 ^ k)" "rnd (1 / 2 ^ k) = Fin (1 / 2 ^ k)"
proof -
  have lt: "(2::real) ^ k < 2 ^ 1024" using assms by (intro power_strict_increasing) simp_all
  show "rnd (2 ^ k) = Fin (2 ^ k)"
  proof (rule rnd_exact [where n = 1 and q = "int k"])
    show "\<bar>(2::real) ^ k\<bar> < 2 ^ 1024" using lt by simp
  qed simp_all
  show "rnd (1 / 2 ^ k) = Fin (1 / 2 ^ k)"
  proof (rule rnd_exact [where n = 1 and q = "- int k"])
    show "1 / (2::real) ^ k = real_of_int 1 * 2 powi (- int k)"
      by (simp add: power_int_minus_divide)
    have a: "\<bar>1 / (2::real) ^ k\<bar> \<le> 1" by simp
    have b: "(1::real) < 2 ^ 1024" by simp
    from a b show "\<bar>1 / (2::real) ^ k\<bar> < 2 ^ 1024" by (rule order_le_less_trans)
    show "- 1074 \<le> - int k" using assms by simp
  qed simp
qed

lemma register_term:
  assumes "unat r < 64"
  shows "fdiv (Fin 1) (float_of_word (2 ^ unat r :: uint64)) = Fin (1 / 2 ^ unat r)"
proof -
  from assms have k: "unat r \<le> 1023" by simp
  show ?thesis
    unfolding float_of_word_def unat_2p_u64 [OF assms]
    using rnd_pow2 [OF k] by simp
qed

text \<open>
  The sum of the terms: after \<open>j\<close> additions the accumulator is the exact sum up to \<open>j\<close>
  roundings.
\<close>

lemma register_sum:
  assumes small: "\<forall>r \<in> set rs. unat r < 64" and acc: "near j A a" and A: "A \<le> real j"
    and j: "j + length rs \<le> 2 ^ 32"
  shows "\<exists>b. fold (\<lambda>val sum. fadd sum (fdiv (Fin 1) (float_of_word (push_bit (unat val) (1 :: uint64)))))
               rs (Fin a) = Fin b
             \<and> near (j + length rs) (A + (\<Sum>r\<leftarrow>rs. 1 / 2 ^ unat r)) b"
  using assms
proof (induction rs arbitrary: j A a)
  case Nil
  then show ?case by simp
next
  case (Cons r rs)
  then have r: "unat r < 64" and rest: "\<forall>r \<in> set rs. unat r < 64" by simp_all
  define t :: real where "t = 1 / 2 ^ unat r"
  have t: "0 < t" "t \<le> 1" by (simp_all add: t_def)
  have "(2::real) ^ unat r \<le> 2 ^ 1000" using r by (intro power_increasing) simp_all
  then have tlo: "1 / 2 ^ 1000 \<le> t" unfolding t_def by (simp add: field_simps)
  from Cons.prems(2) have A0: "0 \<le> A" by (simp add: near_def)
  from Cons.prems(4) have jlt: "j < 2 ^ 32" by simp
  also have "\<dots> \<le> (2::nat) ^ 52" by simp
  finally have j52: "j \<le> 2 ^ 52" by simp
  have "near 0 t t" using t(1) by (intro near_refl) simp
  then have "near j t t" by (rule near_mono) simp
  with Cons.prems(2) have n1: "near j (A + t) (a + t)" by (rule near_add)
  have lo: "1 / 2 ^ 1000 \<le> A + t" using tlo A0 by linarith
  from jlt have "real j < 2 ^ 32" by (metis of_nat_less_iff of_nat_numeral of_nat_power)
  with Cons.prems(3) t(2) have "A + t \<le> 2 ^ 32 + 1" by linarith
  also have "\<dots> \<le> (2::real) ^ 1000" by simp
  finally have hi: "A + t \<le> 2 ^ 1000" .
  from near_rnd_exact [OF n1 j52 lo hi] obtain b1
    where r1: "rnd (a + t) = Fin b1" and n2: "near (Suc j) (A + t) b1"
    by (elim exE conjE)
  have A1: "A + t \<le> real (Suc j)" using Cons.prems(3) t(2) by simp
  have j1: "Suc j + length rs \<le> 2 ^ 32" using Cons.prems(4) by simp
  from Cons.IH [OF rest n2 A1 j1] obtain b
    where f: "fold (\<lambda>val sum. fadd sum (fdiv (Fin 1) (float_of_word (push_bit (unat val) (1 :: uint64)))))
               rs (Fin b1) = Fin b"
      and n3: "near (Suc j + length rs) (A + t + (\<Sum>r\<leftarrow>rs. 1 / 2 ^ unat r)) b"
    by (elim exE conjE)
  have step: "fadd (Fin a) (fdiv (Fin 1) (float_of_word (2 ^ unat r :: uint64))) = Fin b1"
    unfolding register_term [OF r] using r1 by (simp add: t_def)
  have "fold (\<lambda>val sum. fadd sum (fdiv (Fin 1) (float_of_word (push_bit (unat val) (1 :: uint64)))))
               (r # rs) (Fin a) = Fin b"
    using f step by simp
  moreover have "near (j + length (r # rs)) (A + (\<Sum>r\<leftarrow>r # rs. 1 / 2 ^ unat r)) b"
    using n3 by (simp add: t_def add.assoc)
  ultimately show ?case by (intro exI [of _ b] conjI)
qed

lemma register_sum_pos: "rs \<noteq> [] \<Longrightarrow> 0 < (\<Sum>r\<leftarrow>rs. 1 / (2::real) ^ unat (r::uint8))"
proof (induction rs)
  case Nil
  then show ?case by simp
next
  case (Cons r rs)
  have "0 \<le> (\<Sum>r\<leftarrow>rs. 1 / (2::real) ^ unat r)" by (rule sum_list_nonneg) auto
  moreover have "0 < 1 / (2::real) ^ unat r" by simp
  ultimately have "0 < 1 / (2::real) ^ unat r + (\<Sum>r\<leftarrow>rs. 1 / (2::real) ^ unat r)"
    by (rule add_pos_nonneg [rotated])
  then show ?case by simp
qed

lemma register_sum_bounds:
  assumes "\<forall>r \<in> set rs. unat r < 64"
  shows "real (length rs) / 2 ^ 63 \<le> (\<Sum>r\<leftarrow>rs. 1 / (2::real) ^ unat (r::uint8))"
    "(\<Sum>r\<leftarrow>rs. 1 / (2::real) ^ unat (r::uint8)) \<le> real (length rs)"
  using assms
proof (induction rs)
  case Nil
  case 1 show ?case by simp
  case 2 show ?case by simp
next
  case (Cons r rs)
  case 1
  then have r: "unat r < 64" and rest: "\<forall>r \<in> set rs. unat r < 64" by simp_all
  from r have "unat r \<le> 63" by simp
  then have "(2::real) ^ unat r \<le> 2 ^ 63" by (intro power_increasing) simp_all
  then have t: "1 / (2::real) ^ 63 \<le> 1 / 2 ^ unat r" by (intro divide_left_mono) simp_all
  have e: "real (length (r # rs)) / 2 ^ 63 = 1 / 2 ^ 63 + real (length rs) / 2 ^ 63"
    by (simp add: add_divide_distrib)
  have s: "(\<Sum>r\<leftarrow>r # rs. 1 / (2::real) ^ unat r) = 1 / 2 ^ unat r + (\<Sum>r\<leftarrow>rs. 1 / (2::real) ^ unat r)"
    by simp
  from Cons.IH(1) [OF rest] t show ?case unfolding e s by (rule add_mono [rotated])
next
  case (Cons r rs)
  case 2
  then have rest: "\<forall>r \<in> set rs. unat r < 64" by simp
  have t: "1 / (2::real) ^ unat r \<le> 1" by simp
  have e: "real (length (r # rs)) = 1 + real (length rs)" by simp
  have s: "(\<Sum>r\<leftarrow>r # rs. 1 / (2::real) ^ unat r) = 1 / 2 ^ unat r + (\<Sum>r\<leftarrow>rs. 1 / (2::real) ^ unat r)"
    by simp
  from t Cons.IH(2) [OF rest] show ?case unfolding e s by (rule add_mono)
qed

lemma countZeros_fold:
  "fold (\<lambda>v c. if v = 0 then c + 1 else c) rs (c :: uint32) = c + of_nat (zeros rs)"
  by (induction rs arbitrary: c) (simp_all add: zeros_def)

lemma countZeros_eq: "countZeros rs = of_nat (zeros rs)"
  by (simp add: countZeros_def countZeros_fold)

lemma zeros_le: "zeros rs \<le> length rs"
  by (simp add: zeros_def)

lemma unat_countZeros:
  assumes "length rs < 2 ^ 32"
  shows "unat (countZeros rs) = zeros rs"
proof -
  from zeros_le [of rs] assms have "zeros rs < 2 ^ LENGTH(32)" by simp
  then show ?thesis unfolding countZeros_eq by (simp only: unat_of_nat mod_less)
qed

lemma unat_of_nat_length:
  assumes "length rs < 2 ^ 32"
  shows "unat (of_nat (length rs) :: uint32) = length rs"
proof -
  from assms have "length rs < 2 ^ LENGTH(32)" by simp
  then show ?thesis by (simp only: unat_of_nat mod_less)
qed

lemma alpha_spec_denom_pos: "0 < 1 + 1.079 / real n"
  by (intro add_pos_nonneg) simp_all


lemma alpha_spec_le: "alpha_spec n \<le> 0.7213"
proof -
  have "1 \<le> 1 + 1.079 / real n" by simp
  then have "0.7213 / (1 + 1.079 / real n) \<le> 0.7213 / 1"
    using alpha_spec_denom_pos [of n] by (intro divide_left_mono) simp_all
  then show ?thesis unfolding alpha_spec_def by simp
qed

lemma alpha_spec_ge:
  assumes "0 < n"
  shows "0.3 \<le> alpha_spec n"
proof -
  from assms have "1 \<le> real n" by simp
  then have "1.079 / real n \<le> 1.079 / 1" by (intro divide_left_mono) simp_all
  then have d: "1 + 1.079 / real n \<le> 2.079" by simp
  have "(0.3::real) \<le> 0.7213 / 2.079" by simp
  also have "\<dots> \<le> 0.7213 / (1 + 1.079 / real n)"
    using d alpha_spec_denom_pos [of n] by (intro divide_left_mono) simp_all
  finally show ?thesis unfolding alpha_spec_def by simp
qed

lemma word32_eq_numeral: "(n :: uint32) = 16 \<longleftrightarrow> unat n = 16"
  "(n :: uint32) = 32 \<longleftrightarrow> unat n = 32" "(n :: uint32) = 64 \<longleftrightarrow> unat n = 64"
  by (simp_all add: word_unat_eq_iff)

lemma real_unat_u32: "real (unat (n :: uint32)) < 2 ^ 32"
proof -
  have "unat n < 2 ^ 32" using unsigned_less [of n] by simp
  then have "real (unat n) < real (2 ^ 32)" by (simp only: of_nat_less_iff)
  then show ?thesis by (simp del: of_nat_unat)
qed

lemma rnd_const:
  assumes "1 / 2 ^ 1000 \<le> c" and "c \<le> 2 ^ 1000"
  shows "\<exists>a. rnd c = Fin a \<and> near 1 c a"
proof -
  have "0 < 1 / (2::real) ^ 1000" by simp
  with assms(1) have "0 \<le> c" by linarith
  then have "near 0 c c" by (rule near_refl)
  from near_rnd_exact [OF this _ assms] show ?thesis by simp
qed

text \<open>\<^verbatim>\<open>alpha\<close> is the constant of the specification up to 5 roundings.\<close>

lemma alpha_near:
  assumes "n \<noteq> 0"
  shows "\<exists>a. alpha n = Fin a \<and> near 5 (alpha_spec (unat n)) a"
proof -
  define N where "N = unat n"
  from assms have "N \<noteq> 0" by (simp add: N_def unat_eq_0)
  then have N1: "1 \<le> real N" and Npos: "0 < real N" by simp_all
  show ?thesis
  proof (cases "N = 16 \<or> N = 32 \<or> N = 64")
    case True
    have "\<exists>a. rnd (alpha_spec N) = Fin a \<and> near 1 (alpha_spec N) a"
      using True by (intro rnd_const) (auto simp: alpha_spec_def)
    then obtain a where a: "rnd (alpha_spec N) = Fin a" and n: "near 1 (alpha_spec N) a"
      by (elim exE conjE)
    have "alpha n = rnd (alpha_spec N)"
      using True unfolding alpha_def alpha_spec_def word32_eq_numeral N_def [symmetric] by auto
    with a have "alpha n = Fin a" by simp
    moreover from n have "near 5 (alpha_spec N) a" by (rule near_mono) simp
    ultimately show ?thesis unfolding N_def by (intro exI [of _ a] conjI)
  next
    case False
    have "\<exists>a. rnd 1.079 = Fin a \<and> near 1 1.079 a" by (intro rnd_const) simp_all
    then obtain c1 where c1: "rnd 1.079 = Fin c1" and n1: "near 1 1.079 c1" by (elim exE conjE)
    have "\<exists>a. rnd 0.7213 = Fin a \<and> near 1 0.7213 a" by (intro rnd_const) simp_all
    then obtain c2 where c2: "rnd 0.7213 = Fin c2" and n2: "near 1 0.7213 c2" by (elim exE conjE)
    have fN: "float_of_word n = Fin (real N)" unfolding N_def by (rule float_of_u32)
    have nN: "near 0 (real N) (real N)" by (intro near_refl) simp
    \<comment> \<open>\<^verbatim>\<open>1.079/float64(m)\<close>\<close>
    from near_div [OF n1 nN Npos] have "near 1 (1.079 / real N) (c1 / real N)" by simp
    moreover have "1 / 2 ^ 1000 \<le> 1.079 / real N"
    proof -
      have "real N < 2 ^ 32" unfolding N_def by (rule real_unat_u32)
      then have "1.079 / 2 ^ 32 \<le> 1.079 / real N" using Npos by (intro divide_left_mono) simp_all
      moreover have "1 / (2::real) ^ 1000 \<le> 1.079 / 2 ^ 32" by simp
      ultimately show ?thesis by linarith
    qed
    moreover have "1.079 / real N \<le> 2 ^ 1000"
    proof -
      have "1.079 / real N \<le> 1.079 / 1" using N1 by (intro divide_left_mono) simp_all
      moreover have "1.079 / 1 \<le> (2::real) ^ 1000" by simp
      ultimately show ?thesis by linarith
    qed
    ultimately have "\<exists>y. rnd (c1 / real N) = Fin y \<and> near (Suc 1) (1.079 / real N) y"
      by (intro near_rnd_exact) simp_all
    then obtain d where d: "rnd (c1 / real N) = Fin d" and nd: "near 2 (1.079 / real N) d"
      by (auto simp: numeral_2_eq_2)
    \<comment> \<open>\<^verbatim>\<open>1 + 1.079/float64(m)\<close>\<close>
    have "near 0 1 (1::real)" by (intro near_refl) simp
    then have "near 2 1 (1::real)" by (rule near_mono) simp
    from near_add [OF this nd] have ns: "near 2 (1 + 1.079 / real N) (1 + d)" .
    have slo: "1 \<le> 1 + 1.079 / real N" by simp
    have shi: "1 + 1.079 / real N \<le> 2.079"
    proof -
      have "1.079 / real N \<le> 1.079 / 1" using N1 by (intro divide_left_mono) simp_all
      then show ?thesis by simp
    qed
    have "\<exists>y. rnd (1 + d) = Fin y \<and> near (Suc 2) (1 + 1.079 / real N) y"
    proof (rule near_rnd_exact [OF ns])
      have "1 / (2::real) ^ 1000 \<le> 1" by simp
      with slo show "1 / 2 ^ 1000 \<le> 1 + 1.079 / real N" by linarith
      have "(2.079::real) \<le> 2 ^ 1000" by simp
      with shi show "1 + 1.079 / real N \<le> 2 ^ 1000" by linarith
    qed simp
    then obtain s where s: "rnd (1 + d) = Fin s" and nss: "near 3 (1 + 1.079 / real N) s"
      by (auto simp: numeral_3_eq_3)
    have spos: "0 < s" using nss by (rule near_pos) (use slo in linarith)
    \<comment> \<open>\<^verbatim>\<open>0.7213 / (1 + 1.079/float64(m))\<close>\<close>
    have dpos: "0 < 1 + 1.079 / real N" using slo by linarith
    from near_div [OF n2 nss dpos]
    have nq: "near 4 (0.7213 / (1 + 1.079 / real N)) (c2 / s)" by simp
    have as: "alpha_spec N = 0.7213 / (1 + 1.079 / real N)"
      using False by (simp add: alpha_spec_def)
    have "\<exists>y. rnd (c2 / s) = Fin y \<and> near (Suc 4) (alpha_spec N) y"
    proof (rule near_rnd_exact)
      show "near 4 (alpha_spec N) (c2 / s)" using nq by (simp only: as)
      have "1 / (2::real) ^ 1000 \<le> 0.3" by simp
      with alpha_spec_ge [of N] \<open>N \<noteq> 0\<close> show "1 / 2 ^ 1000 \<le> alpha_spec N" by simp
      have "(0.7213::real) \<le> 2 ^ 1000" by simp
      with alpha_spec_le [of N] show "alpha_spec N \<le> 2 ^ 1000" by linarith
    qed simp
    then obtain a where a: "rnd (c2 / s) = Fin a" and na: "near 5 (alpha_spec N) a"
      by (auto simp: eval_nat_numeral)
    have "alpha n = fdiv (rnd 0.7213) (fadd (Fin 1) (fdiv (rnd 1.079) (float_of_word n)))"
      using False unfolding alpha_def word32_eq_numeral N_def [symmetric] by simp
    also have "\<dots> = Fin a"
      unfolding c1 c2 fN using Npos d s spos a by simp
    finally have "alpha n = Fin a" .
    with na show ?thesis unfolding N_def by (intro exI [of _ a] conjI)
  qed
qed


text \<open>
  \<^verbatim>\<open>calculateEstimate\<close> on \<open>n\<close> registers below 64 is the raw estimate up to \<open>n + 8\<close>
  roundings: \<open>n\<close> in the sum, 5 in \<^verbatim>\<open>alpha\<close>, two products and the quotient.
\<close>

lemma calculateEstimate_near:
  assumes ne: "rs \<noteq> []" and len: "length rs < 2 ^ 32" and small: "\<forall>r \<in> set rs. unat r < 64"
  shows "\<exists>e. calculateEstimate rs = Fin e \<and> near (length rs + 8) (rawEstimate rs) e"
proof -
  define n :: uint32 where "n = of_nat (length rs)"
  define N where "N = real (length rs)"
  define S :: real where "S = (\<Sum>r\<leftarrow>rs. 1 / 2 ^ unat r)"
  define A where "A = alpha_spec (length rs)"
  have un: "unat n = length rs" unfolding n_def using len by (rule unat_of_nat_length)
  from ne un have "unat n \<noteq> 0" by simp
  then have nz: "n \<noteq> 0" by auto
  from ne have N1: "1 \<le> N" unfolding N_def by (cases rs) simp_all
  have "length rs < 2 ^ 32" by (rule len)
  then have "real (length rs) < real (2 ^ 32)" by (simp only: of_nat_less_iff)
  then have Nhi: "N < 2 ^ 32" by (simp add: N_def)
  from ne have "0 < length rs" by simp
  then have A: "0.3 \<le> A" "A \<le> 0.7213"
    unfolding A_def by (rule alpha_spec_ge, intro alpha_spec_le)
  have Spos: "0 < S" unfolding S_def using ne by (rule register_sum_pos)
  have Sb: "N / 2 ^ 63 \<le> S" "S \<le> N" unfolding S_def N_def using small by (rule register_sum_bounds)+
  \<comment> \<open>the sum\<close>
  have "near 0 0 (0::real)" by (rule near_refl) simp
  from register_sum [OF small this] len obtain s
    where fs: "fold (\<lambda>val sum. fadd sum (fdiv (Fin 1) (float_of_word (push_bit (unat val) (1 :: uint64)))))
             rs (Fin 0) = Fin s"
      and ns: "near (length rs) S s"
    by (auto simp: S_def)
  have spos: "0 < s" using ns Spos by (rule near_pos)
  \<comment> \<open>\<^verbatim>\<open>alpha(m) * fm\<close>\<close>
  from alpha_near [OF nz] obtain a where fa: "alpha n = Fin a" and na: "near 5 A a"
    unfolding un A_def by (elim exE conjE)
  have fN: "float_of_word n = Fin N" unfolding N_def un [symmetric] by (rule float_of_u32)
  have nN: "near 0 N N" using N1 by (intro near_refl) simp
  from near_mult [OF na nN] have n1: "near 5 (A * N) (a * N)" by simp
  have "\<exists>y. rnd (a * N) = Fin y \<and> near (Suc 5) (A * N) y"
  proof (rule near_rnd_exact [OF n1])
    have "0.3 * 1 \<le> A * N" using A(1) N1 by (intro mult_mono) simp_all
    moreover have "1 / (2::real) ^ 1000 \<le> 0.3 * 1" by simp
    ultimately show "1 / 2 ^ 1000 \<le> A * N" by linarith
    have "A * N \<le> 0.7213 * 2 ^ 32" using A Nhi N1 by (intro mult_mono) simp_all
    moreover have "0.7213 * 2 ^ 32 \<le> (2::real) ^ 1000" by simp
    ultimately show "A * N \<le> 2 ^ 1000" by linarith
  qed simp
  then obtain x1 where f1: "rnd (a * N) = Fin x1" and nx1: "near 6 (A * N) x1"
    by (auto simp: eval_nat_numeral)
  \<comment> \<open>\<^verbatim>\<open>alpha(m) * fm * fm\<close>\<close>
  from near_mult [OF nx1 nN] have n2: "near 6 (A * N * N) (x1 * N)" by simp
  have b2: "0.3 \<le> A * N * N" "A * N * N \<le> 2 ^ 64"
  proof -
    have "0.3 * 1 * 1 \<le> A * N * N" using A(1) N1 by (intro mult_mono) simp_all
    then show "0.3 \<le> A * N * N" by simp
    have "A * N * N \<le> 1 * 2 ^ 32 * 2 ^ 32" using A Nhi N1 by (intro mult_mono) simp_all
    then show "A * N * N \<le> 2 ^ 64" by simp
  qed
  have "\<exists>y. rnd (x1 * N) = Fin y \<and> near (Suc 6) (A * N * N) y"
  proof (rule near_rnd_exact [OF n2])
    have "1 / (2::real) ^ 1000 \<le> 0.3" by simp
    with b2(1) show "1 / 2 ^ 1000 \<le> A * N * N" by linarith
    have "(2::real) ^ 64 \<le> 2 ^ 1000" by simp
    with b2(2) show "A * N * N \<le> 2 ^ 1000" by linarith
  qed simp
  then obtain x2 where f2: "rnd (x1 * N) = Fin x2" and nx2: "near 7 (A * N * N) x2"
    by (auto simp: eval_nat_numeral)
  \<comment> \<open>\<^verbatim>\<open>alpha(m) * fm * fm / sum\<close>\<close>
  from near_div [OF nx2 ns Spos] have n3: "near (7 + length rs) (A * N * N / S) (x2 / s)" .
  have b3: "0.3 \<le> A * N * N / S" "A * N * N / S \<le> 2 ^ 127"
  proof -
    have "0.3 * 1 * N \<le> A * N * N" using A(1) N1 by (intro mult_mono) simp_all
    then have "0.3 * S \<le> A * N * N" using Sb(2) by simp
    then show "0.3 \<le> A * N * N / S" using Spos by (simp add: pos_le_divide_eq)
    have "A * N * N \<le> 1 * N * 2 ^ 32" using A Nhi N1 by (intro mult_mono) simp_all
    also have "\<dots> = 2 ^ 95 * (N / 2 ^ 63)" by simp
    also have "\<dots> \<le> 2 ^ 95 * S" using Sb(1) by (intro mult_left_mono) simp_all
    finally have "A * N * N / S \<le> 2 ^ 95" using Spos by (simp add: pos_divide_le_eq)
    moreover have "(2::real) ^ 95 \<le> 2 ^ 127" by simp
    ultimately show "A * N * N / S \<le> 2 ^ 127" by linarith
  qed
  have "\<exists>y. rnd (x2 / s) = Fin y \<and> near (Suc (7 + length rs)) (A * N * N / S) y"
  proof (rule near_rnd_exact [OF n3])
    have "1 / (2::real) ^ 1000 \<le> 0.3" by simp
    with b3(1) show "1 / 2 ^ 1000 \<le> A * N * N / S" by linarith
    have "(2::real) ^ 127 \<le> 2 ^ 1000" by simp
    with b3(2) show "A * N * N / S \<le> 2 ^ 1000" by linarith
    from len show "7 + length rs \<le> 2 ^ 52" by simp
  qed
  then obtain e where f3: "rnd (x2 / s) = Fin e" and ne3: "near (length rs + 8) (A * N * N / S) e"
    by (auto simp: add.commute)
  have raw: "rawEstimate rs = A * N * N / S"
    by (simp add: rawEstimate_def A_def N_def S_def power2_eq_square mult.assoc)
  have "calculateEstimate rs = fdiv (fmul (fmul (alpha n) (float_of_word n)) (float_of_word n)) (Fin s)"
    using ne unfolding calculateEstimate_def Let_def fs n_def by simp
  also have "\<dots> = Fin e"
    unfolding fa fN using f1 f2 f3 spos by simp
  finally have "calculateEstimate rs = Fin e" .
  with ne3 show ?thesis unfolding raw by (intro exI [of _ e] conjI)
qed

lemma rnd_2_5:
  assumes "N < 2 ^ 32"
  shows "rnd (real N * 2.5) = Fin (real N * 2.5)"
proof (rule rnd_exact [where n = "5 * int N" and q = "- 1"])
  show "real N * 2.5 = real_of_int (5 * int N) * 2 powi (- 1)" by simp
  from assms show "\<bar>5 * int N\<bar> < 2 ^ 53" by simp
  from assms have "real N < real (2 ^ 32)" by (simp only: of_nat_less_iff)
  then have "real N * 2.5 < 2 ^ 32 * 2.5" by simp
  moreover have "2 ^ 32 * 2.5 < (2::real) ^ 1024" by simp
  ultimately show "\<bar>real N * 2.5\<bar> < 2 ^ 1024" by simp
qed simp

text \<open>
  The branches of \<^verbatim>\<open>Count\<close> on a state with \<open>m = len(reg)\<close>, in terms of the estimate
  \<open>e\<close> that \<^verbatim>\<open>calculateEstimate\<close> returns.
\<close>

lemma Count_branches:
  assumes len: "length (reg h) = unat (m h)"
    and est: "calculateEstimate (reg h) = Fin e"
  shows "Count_with lg h =
     (if e \<le> real (length (reg h)) * 2.5 then
        (if zeros (reg h) \<noteq> 0
         then to_uint64 (fmul (Fin (real (length (reg h))))
                (lg (fdiv (Fin (real (length (reg h)))) (Fin (real (zeros (reg h)))))))
         else to_uint64 (Fin e))
      else if e < 143165576 then to_uint64 (Fin e)
      else to_uint64 (fmul (Fin (- (2 ^ 32))) (lg (fsub (Fin 1) (fdiv (Fin e) (Fin (2 ^ 32)))))))"
proof -
  define N where "N = length (reg h)"
  define V where "V = zeros (reg h)"
  have lt: "N < 2 ^ 32" unfolding N_def len using unsigned_less [of "m h"] by simp
  have fm: "float_of_word (m h) = Fin (real N)" unfolding N_def len by (rule float_of_u32)
  have m25: "fmul (Fin (real N)) (Fin 2.5) = Fin (real N * 2.5)"
    using rnd_2_5 [OF lt] by simp
  have uv: "unat (countZeros (reg h)) = V" unfolding V_def using lt [unfolded N_def] by (rule unat_countZeros)
  have v0: "countZeros (reg h) \<noteq> 0 \<longleftrightarrow> V \<noteq> 0"
    using uv by (metis unat_eq_0)
  have fv: "float_of_word (countZeros (reg h)) = Fin (real V)"
    unfolding uv [symmetric] by (rule float_of_u32)
  have lc: "linearCounting lg (m h) (countZeros (reg h))
      = fmul (Fin (real N)) (lg (fdiv (Fin (real N)) (Fin (real V))))"
    unfolding linearCounting_def Let_def fm fv ..
  have thr: "(of_int (two32 div 30) :: real) = 143165576" by (simp add: two32_def)
  have t32: "(of_int two32 :: real) = 2 ^ 32" "(of_int (- two32) :: real) = - (2 ^ 32)"
    by (simp_all add: two32_def)
  have "Count_with lg h =
     (if e \<le> real N * 2.5 then
        (if V \<noteq> 0 then to_uint64 (fmul (Fin (real N)) (lg (fdiv (Fin (real N)) (Fin (real V)))))
         else to_uint64 (Fin e))
      else if e < 143165576 then to_uint64 (Fin e)
      else to_uint64 (fmul (Fin (- (2 ^ 32))) (lg (fsub (Fin 1) (fdiv (Fin e) (Fin (2 ^ 32)))))))"
    unfolding Count_with_def Let_def est fm m25 thr t32 lc v0
    by (simp only: fle.simps flt.simps)
  then show ?thesis by (simp only: N_def V_def)
qed








lemma rawEstimate_replicate:
  "rawEstimate (replicate n r) = alpha_spec n * (real n)\<^sup>2 / (real n * (1 / 2 ^ unat r))"
  by (simp add: rawEstimate_def sum_list_replicate)

lemma zeros_replicate: "zeros (replicate n r) = (if r = 0 then n else 0)"
  by (simp add: zeros_def)















text \<open>
  Claim C9. On the zero value (no registers, \<open>m = 0\<close>) \<^verbatim>\<open>calculateEstimate\<close> returns 0
  at its empty-slice check, before any division; the estimate passes the first
  comparison, \<^verbatim>\<open>countZeros\<close> is 0, so the linear-counting division is not reached, and
  \<^verbatim>\<open>Count\<close> returns 0.
\<close>

theorem Count_zero_value:
  "calculateEstimate (reg zero_value) = Fin 0
   \<and> fle (calculateEstimate (reg zero_value)) (fmul (float_of_word (m zero_value)) (Fin 2.5))
   \<and> countZeros (reg zero_value) = 0
   \<and> Count zero_value = Some 0"
  by (simp add: Count_def Count_with_def zero_value_def calculateEstimate_def countZeros_def
      float_of_word_def rnd_0)

lemma Count_fresh:
  assumes n: "0 < n" "n < 2 ^ 32"
  shows "Count \<lparr>reg = replicate n 0, m = of_nat n, p = q\<rparr> = Some 0"
proof -
  let ?h = "\<lparr>reg = replicate n 0, m = of_nat n, p = q\<rparr>"
  from n have "n < 2 ^ LENGTH(32)" by simp
  then have um: "unat (of_nat n :: uint32) = n" by (simp only: unat_of_nat mod_less)
  have ne: "replicate n (0::uint8) \<noteq> []" using n by simp
  have len: "length (reg ?h) = unat (m ?h)" by (simp add: um)
  have small: "\<forall>r \<in> set (replicate n (0::uint8)). unat r < 64" by simp
  have ln: "length (replicate n (0::uint8)) < 2 ^ 32" using n by simp
  from calculateEstimate_near [OF ne ln small] obtain e
    where est: "calculateEstimate (replicate n 0) = Fin e"
      and nr: "near (n + 8) (rawEstimate (replicate n 0)) e"
    by (auto)
  have raw: "rawEstimate (replicate n 0) = alpha_spec n * real n"
    using n by (simp add: rawEstimate_replicate power2_eq_square)
  from n have "n + 8 \<le> 2 ^ 52" by simp
  with nr have "e \<le> 2 * rawEstimate (replicate n 0)" by (rule near_range)
  also have "\<dots> = 2 * alpha_spec n * real n" by (simp add: raw)
  also have "\<dots> \<le> 2 * 0.7213 * real n"
    using alpha_spec_le [of n] by (intro mult_right_mono mult_left_mono) simp_all
  also have "\<dots> \<le> real n * 2.5" by simp
  finally have le: "e \<le> real n * 2.5" .
  have z: "zeros (replicate n 0) = n" by (simp add: zeros_replicate)
  have one: "rnd 1 = Fin 1" using rnd_of_nat [of 1] by simp
  have "Count ?h = to_uint64 (fmul (Fin (real n)) (flog (fdiv (Fin (real n)) (Fin (real n)))))"
    unfolding Count_def Count_branches [of ?h e flog, OF len, simplified, OF est]
    using le n z by simp
  also have "\<dots> = Some 0" using n by (simp add: one rnd_0)
  finally show ?thesis .
qed

text \<open>
  Claim C8. For every precision \<open>q\<close> in [4, 16], \<^verbatim>\<open>New(q)\<close> succeeds with precision
  \<open>q\<close>, \<open>m = 2 ^ q\<close> and \<open>2 ^ q\<close> registers all zero, and \<^verbatim>\<open>Count\<close> of that sketch is 0;
  for every other \<open>q\<close> it fails with the precision-range error.
\<close>

theorem New_spec:
  "(4 \<le> q \<and> q \<le> 16 \<longrightarrow>
      (\<exists>h. New q = Inr h \<and> p h = q \<and> unat (m h) = 2 ^ unat q
           \<and> reg h = replicate (2 ^ unat q) 0 \<and> Count h = Some 0))
   \<and> (q < 4 \<or> 16 < q \<longrightarrow> New q = Inl ErrPrecisionRange)"
proof (intro conjI impI)
  assume q: "4 \<le> q \<and> q \<le> 16"
  then have q4: "4 \<le> q" and q16: "q \<le> 16" by simp_all
  from p_range_unat [OF q4 q16] have k: "unat q \<le> 16" by simp
  define n :: nat where "n = 2 ^ unat q"
  have npos: "0 < n" by (simp add: n_def)
  have "(2::nat) ^ unat q < 2 ^ 32" using k by (intro power_strict_increasing) simp_all
  then have nlt: "n < 2 ^ 32" by (simp add: n_def)
  define h where "h = \<lparr>reg = replicate n 0, m = of_nat n, p = q\<rparr>"
  have eq: "New q = Inr h" unfolding h_def n_def using New_eq [OF q4 q16] by simp
  from nlt have "n < 2 ^ LENGTH(32)" by simp
  then have um: "unat (of_nat n :: uint32) = n" by (simp only: unat_of_nat mod_less)
  have c: "Count h = Some 0" unfolding h_def using npos nlt by (rule Count_fresh)
  have "p h = q" "unat (m h) = 2 ^ unat q" "reg h = replicate (2 ^ unat q) 0"
    using um by (simp_all add: h_def n_def)
  with eq c show "\<exists>h. New q = Inr h \<and> p h = q \<and> unat (m h) = 2 ^ unat q
           \<and> reg h = replicate (2 ^ unat q) 0 \<and> Count h = Some 0"
    by (intro exI [of _ h]) (simp only: simp_thms)
next
  assume "q < 4 \<or> 16 < q"
  then show "New q = Inl ErrPrecisionRange" by (auto simp: New_def)
qed

theorem New_spec_witness:
  "(\<exists>h. New 4 = Inr h \<and> p h = 4 \<and> unat (m h) = 16 \<and> reg h = replicate 16 0 \<and> Count h = Some 0)
   \<and> New 3 = Inl ErrPrecisionRange \<and> New 17 = Inl ErrPrecisionRange"
  using New_spec [of 4] New_spec [of 3] New_spec [of 17] by simp

section \<open>Text and binary round trips\<close>

lemma length_encodeStd: "length encodeStd = 64"
  by (simp add: encodeStd_def)

lemma distinct_encodeStd: "distinct encodeStd"
  by (simp add: encodeStd_def)

lemma special_notin_encodeStd:
  "padChar \<notin> set encodeStd" "CHR 0x0A \<notin> set encodeStd" "CHR 0x0D \<notin> set encodeStd"
  by (simp_all add: encodeStd_def padChar_def)

lemma sextet_less: "unat (v AND (0x3F :: uint64)) < 64"
proof -
  have "v AND 0x3F \<le> (0x3F :: uint64)" by (rule word_and_le1)
  then have "unat (v AND 0x3F) \<le> unat (0x3F :: uint64)" by (simp only: word_le_nat_alt)
  then show ?thesis by simp
qed

lemma encode_sextet_in: "encode_sextet (v AND 0x3F) \<in> set encodeStd"
  unfolding encode_sextet_def using sextet_less [of v] by (simp add: length_encodeStd)

lemma decodeMap_encode: "decodeMap (encode_sextet (v AND 0x3F)) = Some (v AND 0x3F)"
proof -
  let ?s = "v AND (0x3F :: uint64)"
  have lt: "unat ?s < length [0..<64]" using sextet_less [of v] by simp
  have "map_of (zip encodeStd [0..<64]) (encodeStd ! unat ?s) = Some ([0..<64] ! unat ?s)"
    using _ distinct_encodeStd lt by (rule map_of_zip_nth) (simp add: length_encodeStd)
  also have "[0..<64] ! unat ?s = unat ?s" using sextet_less [of v] by simp
  finally show ?thesis by (simp add: decodeMap_def encode_sextet_def)
qed

lemma decodeMap_padChar: "decodeMap padChar = None"
proof -
  have "padChar \<notin> fst ` set (zip encodeStd [0..<64])"
    using special_notin_encodeStd(1) by (auto dest: set_zip_leftD)
  then have "map_of (zip encodeStd [0..<64]) padChar = None"
    by (simp add: map_of_eq_None_iff)
  then show ?thesis by (simp add: decodeMap_def)
qed

lemma encode_sextet_not_special:
  "encode_sextet (v AND 0x3F) \<noteq> padChar" "encode_sextet (v AND 0x3F) \<noteq> CHR 0x0A"
  "encode_sextet (v AND 0x3F) \<noteq> CHR 0x0D"
  using encode_sextet_in [of v] special_notin_encodeStd by auto

lemma pack4_sextets:
  "pack4 (drop_bit 18 v AND 0x3F) (drop_bit 12 v AND 0x3F) (drop_bit 6 v AND 0x3F) (v AND 0x3F)
   = take_bit 24 v"
proof -
  have m: "(0x3F :: uint64) = mask 6" by (simp add: mask_eq_exp_minus_1)
  show ?thesis
    unfolding pack4_def m
  proof (rule bit_word_eqI)
    fix n assume "n < LENGTH(64)"
    consider "n < 6" | "6 \<le> n" "n < 12" | "12 \<le> n" "n < 18" | "18 \<le> n" "n < 24" | "24 \<le> n"
      by linarith
    then show "bit (push_bit 18 (drop_bit 18 v AND mask 6) OR push_bit 12 (drop_bit 12 v AND mask 6)
                 OR push_bit 6 (drop_bit 6 v AND mask 6) OR (v AND mask 6)) n
             = bit (take_bit 24 v) n"
      by cases (auto simp: bit_simps)
  qed
qed

lemma pack3_take_bit: "take_bit 24 (pack3 b0 b1 b2) = pack3 b0 b1 b2"
  unfolding pack3_def by (rule bit_word_eqI) (auto simp: bit_simps dest: bit_imp_le_length)

lemma pack3_bytes:
  "ucast (drop_bit 16 (pack3 b0 b1 b2)) = b0"
  "ucast (drop_bit 8 (pack3 b0 b1 b2)) = b1"
  "ucast (pack3 b0 b1 b2) = b2"
  unfolding pack3_def by (rule bit_word_eqI; auto simp: bit_simps dest: bit_imp_le_length)+

lemma pack4_low_zero:
  "ucast (drop_bit 16 (pack4 d0 d1 d2 0)) = (ucast (drop_bit 16 (pack4 d0 d1 d2 (v AND 0x3F))) :: uint8)"
  "ucast (drop_bit 8 (pack4 d0 d1 d2 0)) = (ucast (drop_bit 8 (pack4 d0 d1 d2 (v AND 0x3F))) :: uint8)"
proof -
  have m: "(0x3F :: uint64) = mask 6" by (simp add: mask_eq_exp_minus_1)
  show "ucast (drop_bit 16 (pack4 d0 d1 d2 0)) = (ucast (drop_bit 16 (pack4 d0 d1 d2 (v AND 0x3F))) :: uint8)"
    unfolding pack4_def m by (rule bit_word_eqI) (auto simp: bit_simps)
  show "ucast (drop_bit 8 (pack4 d0 d1 d2 0)) = (ucast (drop_bit 8 (pack4 d0 d1 d2 (v AND 0x3F))) :: uint8)"
    unfolding pack4_def m by (rule bit_word_eqI) (auto simp: bit_simps)
qed

lemma pack4_low_zero2:
  "ucast (drop_bit 16 (pack4 d0 d1 0 0))
   = (ucast (drop_bit 16 (pack4 d0 d1 (w AND 0x3F) (v AND 0x3F))) :: uint8)"
proof -
  have m: "(0x3F :: uint64) = mask 6" by (simp add: mask_eq_exp_minus_1)
  show ?thesis
    unfolding pack4_def m by (rule bit_word_eqI) (auto simp: bit_simps)
qed

lemma pack4_of_pack3:
  "pack4 (drop_bit 18 (pack3 b0 b1 b2) AND 0x3F) (drop_bit 12 (pack3 b0 b1 b2) AND 0x3F)
         (drop_bit 6 (pack3 b0 b1 b2) AND 0x3F) (pack3 b0 b1 b2 AND 0x3F) = pack3 b0 b1 b2"
  by (simp only: pack4_sextets pack3_take_bit)

lemma decode_quanta_encode: "decode_quanta (b64_encode bs) = Inr bs"
proof (induction bs rule: b64_encode.induct)
  case (1 b0 b1 b2 rest)
  define val where "val = pack3 b0 b1 b2"
  have p4: "pack4 (drop_bit 18 val AND 0x3F) (drop_bit 12 val AND 0x3F)
              (drop_bit 6 val AND 0x3F) (val AND 0x3F) = val"
    unfolding val_def by (rule pack4_of_pack3)
  have bytes: "ucast (drop_bit 16 val) = b0" "ucast (drop_bit 8 val) = b1" "ucast val = b2"
    unfolding val_def by (rule pack3_bytes)+
  have "b64_encode (b0 # b1 # b2 # rest)
      = encode_sextet (drop_bit 18 val AND 0x3F) # encode_sextet (drop_bit 12 val AND 0x3F)
        # encode_sextet (drop_bit 6 val AND 0x3F) # encode_sextet (val AND 0x3F)
        # b64_encode rest"
    by (simp add: val_def Let_def)
  then show ?case
    by (simp add: decodeMap_encode p4 bytes "1.IH")
next
  case (2 b0 b1)
  define val where "val = pack3 b0 b1 0"
  have p4: "pack4 (drop_bit 18 val AND 0x3F) (drop_bit 12 val AND 0x3F)
              (drop_bit 6 val AND 0x3F) (val AND 0x3F) = val"
    unfolding val_def by (rule pack4_of_pack3)
  have bytes: "ucast (drop_bit 16 val) = b0" "ucast (drop_bit 8 val) = b1"
    unfolding val_def by (rule pack3_bytes)+
  have lz: "ucast (drop_bit 16 (pack4 (drop_bit 18 val AND 0x3F) (drop_bit 12 val AND 0x3F)
              (drop_bit 6 val AND 0x3F) 0)) = b0"
       "ucast (drop_bit 8 (pack4 (drop_bit 18 val AND 0x3F) (drop_bit 12 val AND 0x3F)
              (drop_bit 6 val AND 0x3F) 0)) = b1"
    by (simp_all only: pack4_low_zero [where v = val] p4 bytes)
  have "b64_encode [b0, b1]
      = [encode_sextet (drop_bit 18 val AND 0x3F), encode_sextet (drop_bit 12 val AND 0x3F),
         encode_sextet (drop_bit 6 val AND 0x3F), padChar]"
    by (simp add: val_def Let_def)
  then show ?case
    by (simp add: decodeMap_encode decodeMap_padChar lz)
next
  case (3 b0)
  define val where "val = pack3 b0 0 0"
  have p4: "pack4 (drop_bit 18 val AND 0x3F) (drop_bit 12 val AND 0x3F)
              (drop_bit 6 val AND 0x3F) (val AND 0x3F) = val"
    unfolding val_def by (rule pack4_of_pack3)
  have bytes: "ucast (drop_bit 16 val) = b0"
    unfolding val_def by (rule pack3_bytes)
  have lz: "ucast (drop_bit 16 (pack4 (drop_bit 18 val AND 0x3F) (drop_bit 12 val AND 0x3F) 0 0)) = b0"
    by (simp only: pack4_low_zero2 [where w = "drop_bit 6 val" and v = val] p4 bytes)
  have "b64_encode [b0]
      = [encode_sextet (drop_bit 18 val AND 0x3F), encode_sextet (drop_bit 12 val AND 0x3F),
         padChar, padChar]"
    by (simp add: val_def Let_def)
  then show ?case
    by (simp add: decodeMap_encode decodeMap_padChar lz)
next
  case 4
  then show ?case by simp
qed

lemma b64_encode_no_newline:
  "c \<in> set (b64_encode bs) \<Longrightarrow> c \<noteq> CHR 0x0A \<and> c \<noteq> CHR 0x0D"
proof (induction bs arbitrary: c rule: b64_encode.induct)
  case (1 b0 b1 b2 rest)
  then show ?case
    using encode_sextet_not_special(2,3) by (auto simp: Let_def)
next
  case (2 b0 b1)
  then show ?case
    using encode_sextet_not_special(2,3) by (auto simp: Let_def padChar_def)
next
  case (3 b0)
  then show ?case
    using encode_sextet_not_special(2,3) by (auto simp: Let_def padChar_def)
next
  case 4
  then show ?case by simp
qed

lemma b64_round_trip: "b64_decode (b64_encode bs) = Inr bs"
proof -
  have "filter (\<lambda>c. c \<noteq> CHR 0x0A \<and> c \<noteq> CHR 0x0D) (b64_encode bs) = b64_encode bs"
    using b64_encode_no_newline [of _ bs] by (intro filter_True) blast
  then show ?thesis by (simp add: b64_decode_def decode_quanta_encode)
qed

lemma NewReg_well_formed:
  assumes "well_formed S"
  shows "NewReg (reg S) = Inr S"
proof -
  let ?k = "unat (p S)"
  from assms have pr: "4 \<le> p S" "p S \<le> 16" and um: "unat (m S) = 2 ^ ?k"
    and len: "length (reg S) = 2 ^ ?k" by (simp_all add: well_formed_def)
  from p_range_unat [OF pr] have k: "4 \<le> ?k" "?k \<le> 16" by simp_all
  have "(2::nat) ^ 4 \<le> 2 ^ ?k" using k(1) by (intro power_increasing) simp_all
  moreover have "(2::nat) ^ ?k \<le> 2 ^ 16" using k(2) by (intro power_increasing) simp_all
  ultimately have rng: "16 \<le> length (reg S)" "length (reg S) \<le> 65536" by (simp_all add: len)
  have L: "Len (length (reg S)) - 1 = ?k" by (simp add: len Len_pow2)
  have pw: "(of_nat ?k :: uint8) = p S" by simp
  have mw: "(of_nat (length (reg S)) :: uint32) = m S"
    unfolding len um [symmetric] by simp
  have pow: "2 ^ (Len (length (reg S)) - 1) = length (reg S)"
    unfolding L by (rule len [symmetric])
  have "NewReg (reg S) = Inr \<lparr>reg = reg S, m = of_nat (length (reg S)), p = of_nat (Len (length (reg S)) - 1)\<rparr>"
  proof -
    have c1: "\<not> (length (reg S) > 65536 \<or> length (reg S) < 16)" using rng by linarith
    have c2: "\<not> (2 ^ (Len (length (reg S)) - 1) \<noteq> length (reg S))" using pow by blast
    show ?thesis by (simp only: NewReg_eq c1 c2 if_False)
  qed
  also have "\<dots> = Inr S" unfolding L pw mw by simp
  finally show ?thesis .
qed

lemma NewReg_fails:
  assumes "\<not> ((\<exists>k. length bs = 2 ^ k) \<and> 16 \<le> length bs \<and> length bs \<le> 65536)"
  shows "\<exists>e. NewReg bs = Inl e"
proof (cases "length bs > 65536 \<or> length bs < 16")
  case True
  then show ?thesis by (simp add: NewReg_eq)
next
  case False
  with assms have "\<nexists>k. length bs = 2 ^ k" by auto
  then have "2 ^ (Len (length bs) - 1) \<noteq> length bs"
    using pow2_Len [of "length bs"] by blast
  with False show ?thesis by (simp add: NewReg_eq)
qed

text \<open>
  Claim C5. \<^verbatim>\<open>MarshalText\<close> emits the padded standard base64 of the register bytes and
  nothing else. For a well-formed sketch \<open>S\<close> (whose register array is then non-empty),
  \<^verbatim>\<open>UnmarshalText\<close> of that text succeeds, whatever the receiver was, and yields a
  sketch equal to \<open>S\<close> in registers, \<open>m\<close> and \<open>p\<close>. Whenever the text decodes,
  \<^verbatim>\<open>UnmarshalText\<close> is \<^verbatim>\<open>NewReg\<close> on the decoded bytes, so \<open>p\<close> and \<open>m\<close> come from
  the decoded length, and a decoded length that is out of range or not a power of two
  makes it fail.
\<close>

theorem text_round_trip:
  "MarshalText S = Inr (b64_encode (reg S))
   \<and> (well_formed S \<longrightarrow> (\<exists>t. MarshalText S = Inr t \<and> UnmarshalText h t = Inr S))
   \<and> (\<forall>bs. b64_decode text = Inr bs \<longrightarrow> UnmarshalText h text = NewReg bs)
   \<and> (\<forall>bs. b64_decode text = Inr bs
          \<and> \<not> ((\<exists>k. length bs = 2 ^ k) \<and> 16 \<le> length bs \<and> length bs \<le> 65536) \<longrightarrow>
          (\<exists>e. UnmarshalText h text = Inl e))"
proof (intro conjI allI impI)
  show "MarshalText S = Inr (b64_encode (reg S))" by (simp add: MarshalText_def)
next
  assume w: "well_formed S"
  have "UnmarshalText h (b64_encode (reg S)) = Inr S"
    by (simp add: UnmarshalText_def b64_round_trip NewReg_well_formed [OF w])
  then show "\<exists>t. MarshalText S = Inr t \<and> UnmarshalText h t = Inr S"
    by (simp add: MarshalText_def)
next
  fix bs assume "b64_decode text = Inr bs"
  then show "UnmarshalText h text = NewReg bs"
    by (simp add: UnmarshalText_def split: sum.split)
next
  fix bs
  assume a: "b64_decode text = Inr bs
          \<and> \<not> ((\<exists>k. length bs = 2 ^ k) \<and> 16 \<le> length bs \<and> length bs \<le> 65536)"
  then have "\<exists>e. NewReg bs = Inl e" by (intro NewReg_fails) simp
  with a show "\<exists>e. UnmarshalText h text = Inl e"
    by (auto simp: UnmarshalText_def)
qed

lemma encode_example:
  "b64_encode [3,0,1,0, 0,0,0,0, 0,0,0,0, 0,0,0,7] = ''AwABAAAAAAAAAAAAAAAABw==''"
  "b64_encode [1,2,3] = ''AQID''"
  by (simp_all add: pack3_def encode_sextet_def encodeStd_def padChar_def)

theorem text_round_trip_witness:
  "MarshalText \<lparr>reg = [3,0,1,0, 0,0,0,0, 0,0,0,0, 0,0,0,7], m = 16, p = 4\<rparr>
     = Inr ''AwABAAAAAAAAAAAAAAAABw==''
   \<and> UnmarshalText zero_value ''AwABAAAAAAAAAAAAAAAABw==''
     = Inr \<lparr>reg = [3,0,1,0, 0,0,0,0, 0,0,0,0, 0,0,0,7], m = 16, p = 4\<rparr>
   \<and> (\<exists>e. UnmarshalText zero_value ''AQID'' = Inl e)"
proof -
  let ?S = "\<lparr>reg = [3,0,1,0, 0,0,0,0, 0,0,0,0, 0,0,0,7], m = 16, p = 4 :: uint8\<rparr>"
  have w: "well_formed ?S" by (simp add: well_formed_def)
  note t = text_round_trip [of ?S zero_value "''AQID''"]
  have d: "b64_decode ''AQID'' = Inr [1,2,3]"
    using b64_round_trip [of "[1,2,3]"] by (simp only: encode_example)
  have n: "\<not> ((\<exists>k. length [1,2,3::uint8] = 2 ^ k) \<and> 16 \<le> length [1,2,3::uint8]
              \<and> length [1,2,3::uint8] \<le> 65536)" by simp
  from t have a: "MarshalText ?S = Inr (b64_encode (reg ?S))" by (rule conjunct1)
  from t w have "\<exists>t. MarshalText ?S = Inr t \<and> UnmarshalText zero_value t = Inr ?S" by blast
  with a have b: "UnmarshalText zero_value (b64_encode (reg ?S)) = Inr ?S" by auto
  from t d n have c: "\<exists>e. UnmarshalText zero_value ''AQID'' = Inl e" by blast
  have e: "b64_encode (reg ?S) = ''AwABAAAAAAAAAAAAAAAABw==''"
    using encode_example(1) by simp
  from a b c show ?thesis unfolding e by (intro conjI)
qed

text \<open>
  Claim C6. \<^verbatim>\<open>GobEncode\<close> writes the registers, then \<open>m\<close> as an unsigned integer, then
  \<open>p\<close> as an unsigned integer; \<^verbatim>\<open>GobDecode\<close> of that stream, in that order and into any
  receiver, succeeds and yields a sketch equal to the encoded one. This holds for every
  sketch state, the zero value included.
\<close>

theorem gob_round_trip:
  "(\<exists>b. GobEncode S = Inr b \<and> GobDecode h b = (None, S))
   \<and> (\<exists>b. GobEncode zero_value = Inr b \<and> GobDecode h b = (None, zero_value))
   \<and> GobEncode S = Inr [GobBytes (reg S), GobUint (unat (m S)), GobUint (unat (p S))]"
proof -
  have lt: "unat (m T) < 2 ^ 32" "unat (p T) < 2 ^ 8" for T :: HyperLogLog
    using unsigned_less [of "m T"] unsigned_less [of "p T"] by simp_all
  have "GobDecode h [GobBytes (reg T), GobUint (unat (m T)), GobUint (unat (p T))] = (None, T)"
    for T :: HyperLogLog
    using lt [of T] by (simp add: GobDecode_def)
  then show ?thesis by (simp add: GobEncode_def)
qed

end
